theory Spec2Isabelle
  imports Complex_Main "HOL-Library.Signed_Division"
begin

section \<open>Go values\<close>

text \<open>
  Go's \<^verbatim>\<open>int\<close> is a 64-bit two's complement integer on the platforms the benchmark targets.
  It is modelled as \<open>int\<close> with the wrap-around of \<^verbatim>\<open>+\<close> and \<^verbatim>\<open>++\<close> written out by
  \<open>wrap64\<close>; \<open>int64\<close> says that a value is representable.
\<close>

definition wrap64 :: "int \<Rightarrow> int" where
  "wrap64 x = (x + 2 ^ 63) mod 2 ^ 64 - 2 ^ 63"

definition int64 :: "int \<Rightarrow> bool" where
  "int64 x \<longleftrightarrow> - (2 ^ 63) \<le> x \<and> x < 2 ^ 63"

text \<open>
  The ways the process can stop abnormally: the run-time panic of an integer division by
  zero, the panic of \<^verbatim>\<open>rand.Intn\<close> on a non-positive bound, the panic of
  \<^verbatim>\<open>Uint64\<close> on a nil \<^verbatim>\<open>rand.Zipf\<close> generator, \<^verbatim>\<open>log.Fatalf\<close>, which ends the process
  with the formatted message, the panic of \<^verbatim>\<open>make\<close> on a negative channel capacity, the
  panic of \<^verbatim>\<open>WaitGroup.Done\<close> on a counter that would become negative, and the panic of
  a send on a closed channel.
\<close>

datatype error =
  DivideByZero | IntnInvalid | NilZipf | Fatal string | MakeChan | NegativeWaitGroup | ClosedChannel

text \<open>Go's \<^verbatim>\<open>%\<close> truncates towards zero and panics on a zero divisor.\<close>

definition go_rem :: "int \<Rightarrow> int \<Rightarrow> error + int" where
  "go_rem a b = (if b = 0 then Inl DivideByZero else Inr (a smod b))"

text \<open>
  The conversion \<^verbatim>\<open>int(f)\<close> of a float64 discards the fraction. A value outside the range
  of \<^verbatim>\<open>int\<close> converts to the smallest integer, as the amd64 conversion instruction does.
  Floating-point numbers are taken as reals, rounding errors of the arithmetic apart.
\<close>

definition go_int :: "real \<Rightarrow> int" where
  "go_int x = (let t = (if 0 \<le> x then \<lfloor>x\<rfloor> else \<lceil>x\<rceil>)
               in if int64 t then t else - (2 ^ 63))"

section \<open>Configuration and benchmark state\<close>

text \<open>
  \<^verbatim>\<open>Bconfig\<close>, field by field. \<^verbatim>\<open>Min\<close> and \<^verbatim>\<open>Sigma\<close> carry a prime, the names being taken
  in HOL.
\<close>

record Bconfig =
  T :: int
  N :: int
  K :: int
  W :: real
  Throttle :: int
  Concurrency :: int
  Distribution :: string
  LinearizabilityCheck :: bool
  Conflicts :: int
  Min' :: int
  Mu :: real
  Sigma' :: real
  Move :: bool
  Speed :: int
  ZipfianS :: real
  ZipfianV :: real
  Lambda :: real
  Size :: int

text \<open>\<^verbatim>\<open>DefaultBConfig\<close>.\<close>

definition DefaultBConfig :: Bconfig where
  "DefaultBConfig =
     \<lparr>T = 60, N = 0, K = 1000, W = 1, Throttle = 0, Concurrency = 1,
      Distribution = ''uniform'', LinearizabilityCheck = True, Conflicts = 100, Min' = 0,
      Mu = 0, Sigma' = 60, Move = False, Speed = 500, ZipfianS = 2, ZipfianV = 1,
      Lambda = 1 / 100, Size = 128\<rparr>"

text \<open>
  \<^verbatim>\<open>Benchmark\<close> embeds \<^verbatim>\<open>Bconfig\<close>. The \<^verbatim>\<open>db\<close> field is the external client: what its
  \<^verbatim>\<open>Write\<close> returns is an input of the worker. Durations and times are nanoseconds.
  \<^verbatim>\<open>rate\<close> is \<open>None\<close> for a nil limiter, otherwise the number of \<^verbatim>\<open>Wait\<close> calls made on
  it (the limiter itself only delays the caller). \<^verbatim>\<open>zipf\<close> is \<open>None\<close> for a nil generator,
  otherwise the number of values drawn from it so far. \<^verbatim>\<open>wait\<close> is the counter of the
  \<^verbatim>\<open>sync.WaitGroup\<close>.
\<close>

record Benchmark = Bconfig +
  rate :: "nat option"
  latency :: "int list"
  startTime :: int
  zipf :: "nat option"
  counter :: int
  wait :: int
  globalCouner :: int

text \<open>
  \<^verbatim>\<open>NewBenchmark\<close>: the configuration is the global \<^verbatim>\<open>config.Benchmark\<close>, a parameter here.
  \<^verbatim>\<open>rand.NewZipf\<close> returns nil unless \<open>s > 1\<close> and \<open>v \<ge> 1\<close>.
\<close>

definition NewBenchmark :: "Bconfig \<Rightarrow> Benchmark" where
  "NewBenchmark c =
     Bconfig.extend c
       (Benchmark.fields
          (if 0 < Throttle c then Some 0 else None)
          []
          0
          (if 1 < ZipfianS c \<and> 1 \<le> ZipfianV c then Some 0 else None)
          (- 1)
          0
          (- 1))"

section \<open>Key generation\<close>

text \<open>
  The values the random sources hand to one call of \<^verbatim>\<open>next\<close>: what \<^verbatim>\<open>rand.Intn\<close>,
  \<^verbatim>\<open>rand.NormFloat64\<close>, \<^verbatim>\<open>rand.ExpFloat64\<close> and \<^verbatim>\<open>b.zipf.Uint64\<close> return when they are
  called. \<^verbatim>\<open>rand.Intn(n)\<close> panics unless \<open>0 < n\<close> and then returns a value in \<open>[0, n)\<close>:
  the theorems about it assume that \<open>Intn\<close> lies in the range.
\<close>

record draws =
  Intn :: int
  NormFloat64 :: real
  ExpFloat64 :: real
  Uint64 :: nat

definition rand_Intn :: "draws \<Rightarrow> int \<Rightarrow> error + int" where
  "rand_Intn d n = (if n \<le> 0 then Inl IntnInvalid else Inr (Intn d))"

text \<open>
  The two folding loops of the \<^verbatim>\<open>normal\<close> case. A loop that does not end has the value
  \<open>None\<close>.
\<close>

partial_function (option) normal_add_loop :: "int \<Rightarrow> int \<Rightarrow> int option" where
  "normal_add_loop k key =
     (if key < 0 then normal_add_loop k (wrap64 (key + k)) else Some key)"

partial_function (option) normal_sub_loop :: "int \<Rightarrow> int \<Rightarrow> int option" where
  "normal_sub_loop k key =
     (if key > k then normal_sub_loop k (wrap64 (key - k)) else Some key)"

text \<open>The statements shared by the \<^verbatim>\<open>order\<close> case and the else branch of \<^verbatim>\<open>conflict\<close>.\<close>

definition advance_counter :: "Benchmark \<Rightarrow> error + int \<times> Benchmark" where
  "advance_counter b =
     (case go_rem (wrap64 (counter b + 1)) (K b) of
        Inl e \<Rightarrow> Inl e
      | Inr c \<Rightarrow> Inr (wrap64 (c + Min' b), b\<lparr>counter := c\<rparr>))"

text \<open>The \<^verbatim>\<open>switch\<close> of \<^verbatim>\<open>next\<close>, case by case in the order of the source.\<close>

definition next_switch :: "Benchmark \<Rightarrow> draws \<Rightarrow> (error + int \<times> Benchmark) option" where
  "next_switch b d =
     (if Distribution b = ''order'' then Some (advance_counter b)
      else if Distribution b = ''uniform'' then
        Some (case rand_Intn d (K b) of
                Inl e \<Rightarrow> Inl e
              | Inr r \<Rightarrow> Inr (wrap64 (r + Min' b), b))
      else if Distribution b = ''conflict'' then
        Some (case rand_Intn d 100 of
                Inl e \<Rightarrow> Inl e
              | Inr r \<Rightarrow> if r < Conflicts b then Inr (0, b) else advance_counter b)
      else if Distribution b = ''normal'' then
        Option.bind (normal_add_loop (K b) (go_int (NormFloat64 d * Sigma' b + Mu b)))
          (\<lambda>k1. Option.bind (normal_sub_loop (K b) k1)
            (\<lambda>k2. Some (Inr (k2, b))))
      else if Distribution b = ''zipfan'' then
        Some (case zipf b of
                None \<Rightarrow> Inl NilZipf
              | Some n \<Rightarrow> Inr (wrap64 (int (Uint64 d)), b\<lparr>zipf := Some (Suc n)\<rparr>))
      else if Distribution b = ''exponential'' then
        Some (Inr (if Lambda b = 0 then - (2 ^ 63) else go_int (ExpFloat64 d / Lambda b), b))
      else Some (Inl (Fatal (''unknown distribution '' @ Distribution b))))"

text \<open>
  \<^verbatim>\<open>next\<close>: the switch, then the wait on the limiter when \<^verbatim>\<open>Throttle\<close> is positive.
  The result is \<open>None\<close> when the call does not return, \<open>Some (Inl e)\<close> when the process
  stops with \<open>e\<close>, and \<open>Some (Inr (key, b'))\<close> when it returns \<open>key\<close> and leaves the state
  \<open>b'\<close>.
\<close>

definition Benchmark_next :: "Benchmark \<Rightarrow> draws \<Rightarrow> (error + int \<times> Benchmark) option" where
  "Benchmark_next b d =
     (case next_switch b d of
        None \<Rightarrow> None
      | Some (Inl e) \<Rightarrow> Some (Inl e)
      | Some (Inr (key, b')) \<Rightarrow>
          Some (Inr (key, if 0 < Throttle b' then b'\<lparr>rate := map_option Suc (rate b')\<rparr> else b')))"

section \<open>The worker\<close>

text \<open>
  Modelled from the spec: the declaration of \<^verbatim>\<open>operation\<close> is not among the sources. Its
  fields are the four the worker assigns: the input and output payloads and the start
  and end timestamps relative to the start of the run (\<^verbatim>\<open>output\<close> and \<^verbatim>\<open>end\<close> carry a
  prime, the names being keywords). \<^verbatim>\<open>new(operation)\<close> is the zero value. A byte slice is a list of
  numbers, nil being the empty list.
\<close>

record operation =
  input :: "nat list"
  output' :: "nat list"
  start :: int
  end' :: int

definition new_operation :: operation where
  "new_operation = \<lparr>input = [], output' = [], start = 0, end' = 0\<rparr>"

definition MaxInt64 :: int where
  "MaxInt64 = 2 ^ 63 - 1"

text \<open>
  The variables \<^verbatim>\<open>s\<close>, \<^verbatim>\<open>e\<close>, \<^verbatim>\<open>err\<close> and \<^verbatim>\<open>v\<close> that the worker declares before its loop:
  they keep their values from one key to the next. An error is its message, \<open>None\<close>
  being nil.
\<close>

record worker_vars =
  var_s :: int
  var_e :: int
  var_err :: "string option"
  var_v :: "nat list"

definition worker_vars0 :: worker_vars where
  "worker_vars0 = \<lparr>var_s = 0, var_e = 0, var_err = None, var_v = []\<rparr>"

text \<open>
  The write branch in two halves, before and after the call of \<^verbatim>\<open>b.db.Write\<close>: the
  payload and the start time are assigned before the call, the error and the end time
  after it, and the operation takes the payload as its input.
\<close>

definition worker_begin_write :: "worker_vars \<Rightarrow> nat list \<Rightarrow> int \<Rightarrow> worker_vars" where
  "worker_begin_write l payload now = l\<lparr>var_v := payload, var_s := now\<rparr>"

definition worker_end_write ::
  "worker_vars \<Rightarrow> string option \<Rightarrow> int \<Rightarrow> worker_vars \<times> operation" where
  "worker_end_write l werr now =
     (let l' = l\<lparr>var_err := werr, var_e := now\<rparr>
      in (l', new_operation\<lparr>input := var_v l'\<rparr>))"

text \<open>The else branch, the synthetic read: two clock readings and nothing else.\<close>

definition worker_read :: "worker_vars \<Rightarrow> int \<Rightarrow> int \<Rightarrow> worker_vars \<times> operation" where
  "worker_read l now1 now2 =
     (let l' = l\<lparr>var_s := now1, var_e := now2\<rparr>
      in (l', new_operation\<lparr>output' := var_v l'\<rparr>))"

text \<open>
  The end of the loop body, from \<^verbatim>\<open>op.start = ...\<close> on: the finished operation, the latency
  sent on \<^verbatim>\<open>result\<close> if any, and the error logged if any.
\<close>

record worker_out =
  done_op :: operation
  result :: "int option"
  logged :: "string option"

definition worker_finish :: "Benchmark \<Rightarrow> worker_vars \<Rightarrow> operation \<Rightarrow> worker_out" where
  "worker_finish b l opn =
     (let op1 = opn\<lparr>start := var_s l - startTime b\<rparr>
      in if var_err l = None
         then \<lparr>done_op = op1\<lparr>end' := var_e l - startTime b\<rparr>,
               result = Some (var_e l - var_s l), logged = None\<rparr>
         else \<lparr>done_op = op1\<lparr>end' := MaxInt64\<rparr>, result = None, logged = var_err l\<rparr>)"

text \<open>
  What the environment hands to one pass through the loop body: the value of
  \<^verbatim>\<open>rand.Float64()\<close> (in \<open>[0, 1)\<close>), the payload from \<^verbatim>\<open>GenerateRandVal\<close>, two clock
  readings, the number received from the \<^verbatim>\<open>globalCouner\<close> channel and the error returned
  by \<^verbatim>\<open>b.db.Write\<close>.
\<close>

record worker_env =
  Float64 :: real
  RandVal :: "nat list"
  Now1 :: int
  Now2 :: int
  Seq :: int
  Write_err :: "string option"

text \<open>
  One pass through the loop body for the key \<open>k\<close>: the variables afterwards, the
  arguments of the \<^verbatim>\<open>Write\<close> call if one was made, and the outcome.
\<close>

definition worker_iter ::
  "Benchmark \<Rightarrow> worker_vars \<Rightarrow> int \<Rightarrow> worker_env \<Rightarrow>
     worker_vars \<times> (int \<times> nat list \<times> int) option \<times> worker_out" where
  "worker_iter b l k env =
     (if Float64 env < W b then
        (let l1 = worker_begin_write l (RandVal env) (Now1 env);
             (l2, opn) = worker_end_write l1 (Write_err env) (Now2 env)
         in (l2, Some (k, var_v l1, Seq env), worker_finish b l2 opn))
      else
        (let (l2, opn) = worker_read l (Now1 env) (Now2 env)
         in (l2, None, worker_finish b l2 opn)))"

text \<open>
  \<^verbatim>\<open>worker\<close> on the keys it receives, each with what the environment hands to its pass:
  the outcomes in order.
\<close>

fun Benchmark_worker ::
  "Benchmark \<Rightarrow> worker_vars \<Rightarrow> (int \<times> worker_env) list \<Rightarrow>
     ((int \<times> nat list \<times> int) option \<times> worker_out) list" where
  "Benchmark_worker b l [] = []"
| "Benchmark_worker b l ((k, env) # rest) =
     (case worker_iter b l k env of
        (l', c, out) \<Rightarrow> (c, out) # Benchmark_worker b l' rest)"

text \<open>The latencies a worker sends on \<^verbatim>\<open>result\<close>, in order.\<close>

definition sent_latencies ::
  "((int \<times> nat list \<times> int) option \<times> worker_out) list \<Rightarrow> int list" where
  "sent_latencies outs = concat (map (\<lambda>(c, out). case result out of None \<Rightarrow> [] | Some t \<Rightarrow> [t]) outs)"

section \<open>The collector\<close>

text \<open>
  One pass through the loop of \<^verbatim>\<open>collect\<close>: the latency is appended and \<^verbatim>\<open>b.wait.Done()\<close>
  takes one from the counter of the wait group, which panics below zero.
\<close>

definition collect_one :: "Benchmark \<Rightarrow> int \<Rightarrow> error + Benchmark" where
  "collect_one b t =
     (let b' = b\<lparr>latency := latency b @ [t]\<rparr>
      in if wait b' - 1 < 0 then Inl NegativeWaitGroup else Inr (b'\<lparr>wait := wait b' - 1\<rparr>))"

fun Benchmark_collect :: "Benchmark \<Rightarrow> int list \<Rightarrow> error + Benchmark" where
  "Benchmark_collect b [] = Inr b"
| "Benchmark_collect b (t # ts) =
     (case collect_one b t of Inl e \<Rightarrow> Inl e | Inr b' \<Rightarrow> Benchmark_collect b' ts)"

section \<open>The orchestrator\<close>

text \<open>
  \<^verbatim>\<open>Load\<close> and \<^verbatim>\<open>Run\<close> act on the other goroutines through the wait group, the channels
  and the client. Each such statement is an event, and a run of the orchestrator is the
  list of its events in program order:
  \<^item> \<open>ResetLatency\<close>: \<^verbatim>\<open>b.latency = make([]time.Duration, 0)\<close>;
  \<^item> \<open>GoCollect\<close>, \<open>GoWorker\<close>: the \<^verbatim>\<open>go\<close> statements;
  \<^item> \<open>DbInit\<close>, \<open>DbStop\<close>: the calls of the client;
  \<^item> \<open>SetStart t\<close>: \<^verbatim>\<open>b.startTime = time.Now()\<close>, the clock reading \<open>t\<close>;
  \<^item> \<open>WaitAdd\<close>, \<open>WaitWait\<close>: \<^verbatim>\<open>b.wait.Add(1)\<close> and \<^verbatim>\<open>b.wait.Wait()\<close>;
  \<^item> \<open>SendKey k\<close>, \<open>SendSeq n\<close>: the sends on \<^verbatim>\<open>keys\<close> and on \<^verbatim>\<open>globalCouner\<close>;
  \<^item> \<open>CloseKeys\<close>, \<open>CloseSeq\<close>, \<open>CloseLatencies\<close>: the \<^verbatim>\<open>close\<close> calls, the last one deferred;
  \<^item> \<open>Report\<close>: \<^verbatim>\<open>Statistic(b.latency)\<close> and the output of the statistics.
\<close>

datatype event =
  ResetLatency | GoCollect | GoWorker | DbInit | DbStop | SetStart int
  | WaitAdd | WaitWait | SendKey int | SendSeq int
  | CloseKeys | CloseSeq | CloseLatencies | Report

text \<open>How a run of the orchestrator ends: it returns, it stops with a panic, or it hangs.\<close>

datatype outcome = Returns Benchmark | Panics error | Hangs

text \<open>
  The loop of \<^verbatim>\<open>Load\<close>, \<^verbatim>\<open>for i := b.Min; i < b.Min+b.K; i++\<close>. The increment of
  \<^verbatim>\<open>b.globalCouner\<close> is commented out in the source, so every key goes with the same number.
\<close>

function Load_loop :: "Benchmark \<Rightarrow> int \<Rightarrow> event list" where
  "Load_loop b i =
     (if i < wrap64 (Min' b + K b)
      then WaitAdd # SendKey i # SendSeq (globalCouner b) # Load_loop b (wrap64 (i + 1))
      else [])"
  by pat_completeness auto
termination
proof (relation "measure (\<lambda>(b, i). nat (wrap64 (Min' b + K b) - i))")
  show "wf (measure (\<lambda>(b, i). nat (wrap64 (Min' b + K b) - i)))" by simp
next
  fix b :: Benchmark and i :: int
  assume lt: "i < wrap64 (Min' b + K b)"
  have "0 \<le> (i + 1 + 2 ^ 63) mod (2 ^ 64 :: int)" by simp
  then have lo: "- (2 ^ 63) \<le> wrap64 (i + 1)" by (simp add: wrap64_def)
  have "(Min' b + K b + 2 ^ 63) mod (2 ^ 64 :: int) < 2 ^ 64" by simp
  moreover have "(2 :: int) ^ 64 = 2 * 2 ^ 63" by simp
  ultimately have hi: "wrap64 (Min' b + K b) < 2 ^ 63" unfolding wrap64_def by linarith
  have "i < wrap64 (i + 1)"
  proof (cases "- (2 ^ 63) \<le> i + 1")
    case True
    with lt hi have "wrap64 (i + 1) = i + 1" by (simp add: wrap64_def)
    then show ?thesis by simp
  next
    case False
    with lo show ?thesis by linarith
  qed
  with lt show "((b, wrap64 (i + 1)), (b, i)) \<in> measure (\<lambda>(b, i). nat (wrap64 (Min' b + K b) - i))"
    by simp
qed

declare Load_loop.simps [simp del]

definition Benchmark_Load :: "Benchmark \<Rightarrow> int \<Rightarrow> event list \<times> outcome" where
  "Benchmark_Load b now =
     (let b1 = b\<lparr>W := 1, Throttle := 0\<rparr>
      in if Concurrency b1 < 0 then ([DbInit], Panics MakeChan)
         else
           ([DbInit, GoCollect, SetStart now] @ replicate (nat (Concurrency b1)) GoWorker @
            Load_loop b1 (Min' b1) @ [DbStop, CloseKeys, WaitWait, Report, CloseLatencies],
            Returns (b1\<lparr>startTime := now\<rparr>)))"

text \<open>
  The task that \<^verbatim>\<open>Run\<close> schedules when \<^verbatim>\<open>Move\<close> is set, \<^verbatim>\<open>b.Mu = float64(int(b.Mu+1) % b.K)\<close>,
  and its effect when it has fired \<open>n\<close> times.
\<close>

definition move :: "Benchmark \<Rightarrow> error + Benchmark" where
  "move b =
     (case go_rem (go_int (Mu b + 1)) (K b) of
        Inl e \<Rightarrow> Inl e
      | Inr m \<Rightarrow> Inr (b\<lparr>Mu := real_of_int m\<rparr>))"

fun moves :: "nat \<Rightarrow> Benchmark \<Rightarrow> error + Benchmark" where
  "moves 0 b = Inr b"
| "moves (Suc n) b = (case move b of Inl e \<Rightarrow> Inl e | Inr b' \<Rightarrow> moves n b')"

text \<open>
  The body shared by the two loops of \<^verbatim>\<open>Run\<close>, once for each element of the list: the
  number of times the scheduled task has fired since the pass before (none unless \<^verbatim>\<open>Move\<close>
  is set) and the draws for the call of \<^verbatim>\<open>next\<close>. The fields \<^verbatim>\<open>wait\<close> and \<^verbatim>\<open>latency\<close> are
  shared with the collector: what the orchestrator does to them is in the events.
\<close>

fun submit_loop :: "Benchmark \<Rightarrow> (nat \<times> draws) list \<Rightarrow> event list \<times> outcome" where
  "submit_loop b [] = ([], Returns b)"
| "submit_loop b ((ticks, d) # rest) =
     (case (if Move b then moves ticks b else Inr b) of
        Inl e \<Rightarrow> ([], Panics e)
      | Inr b0 \<Rightarrow>
          (case Benchmark_next b0 d of
             None \<Rightarrow> ([WaitAdd], Hangs)
           | Some (Inl e) \<Rightarrow> ([WaitAdd], Panics e)
           | Some (Inr (key, b1)) \<Rightarrow>
               (let b2 = b1\<lparr>globalCouner := wrap64 (globalCouner b1 + 1)\<rparr>;
                    (evs, out) = submit_loop b2 rest
                in (WaitAdd # SendKey key # SendSeq (globalCouner b2) # evs, out))))"

text \<open>
  \<^verbatim>\<open>Run\<close>. With \<open>T > 0\<close> the loop makes as many passes as start before the timer fires,
  \<open>fired\<close> of them; otherwise it makes \<open>N\<close> passes and then waits on the wait group. The
  environment of pass \<open>i\<close> is \<open>envs i\<close>.
\<close>

definition Benchmark_Run ::
  "Benchmark \<Rightarrow> int \<Rightarrow> (nat \<Rightarrow> nat \<times> draws) \<Rightarrow> nat \<Rightarrow> event list \<times> outcome" where
  "Benchmark_Run b now envs fired =
     (if Concurrency b < 0 then ([ResetLatency], Panics MakeChan)
      else
        (let pre = [ResetLatency, GoCollect] @ replicate (nat (Concurrency b)) GoWorker @
                   [DbInit, SetStart now];
             passes = (if 0 < T b then fired else nat (N b));
             (evs, out) = submit_loop (b\<lparr>latency := [], startTime := now\<rparr>) (map envs [0..<passes])
         in case out of
              Returns b' \<Rightarrow>
                (pre @ evs @ (if 0 < T b then [] else [WaitWait]) @
                 [DbStop, CloseKeys, CloseSeq, Report, CloseLatencies], Returns b')
            | _ \<Rightarrow> (pre @ evs, out)))"

text \<open>The keys and the sequence numbers an event list sends, in order.\<close>

fun sent_keys :: "event list \<Rightarrow> int list" where
  "sent_keys [] = []"
| "sent_keys (SendKey k # evs) = k # sent_keys evs"
| "sent_keys (ev # evs) = sent_keys evs"

fun sent_seqs :: "event list \<Rightarrow> int list" where
  "sent_seqs [] = []"
| "sent_seqs (SendSeq n # evs) = n # sent_seqs evs"
| "sent_seqs (ev # evs) = sent_seqs evs"

section \<open>The goroutines together\<close>

text \<open>
  The orchestrator, the workers and the collector run concurrently and meet at the
  channels and the wait group. A state of the whole has: the events the orchestrator has
  still to perform; the benchmark, of which the goroutines share the configuration,
  \<^verbatim>\<open>startTime\<close>, \<^verbatim>\<open>latency\<close> and \<^verbatim>\<open>wait\<close> (the counters private to the orchestrator are
  in the events already); the contents of the buffered channels \<^verbatim>\<open>keys\<close> and \<^verbatim>\<open>latencies\<close>
  and which channels are closed; where each worker stands; whether the collector runs;
  the arguments \<open>(key, payload, number)\<close> of the \<^verbatim>\<open>Write\<close> calls made so far, in order; the
  errors logged; the latencies that went into the statistics, once reported; and the
  panic that ended the process, if any.

  A worker stands at the head of its loop (\<open>Idle\<close>), at the receive from \<^verbatim>\<open>globalCouner\<close>
  with a key in hand (\<open>Recv\<close>), inside the call of \<^verbatim>\<open>Write\<close> (\<open>Writing\<close>), at the send of a
  latency on \<^verbatim>\<open>result\<close> (\<open>Sending\<close>), or it has left the loop (\<open>Exited\<close>); each time with its
  variables.
\<close>

datatype wstate =
  Idle worker_vars
  | Recv worker_vars int
  | Writing worker_vars int int
  | Sending worker_vars int
  | Exited

record sys =
  prog :: "event list"
  bench :: Benchmark
  keys :: "int list"
  keys_closed :: bool
  seq_closed :: bool
  latencies :: "int list"
  latencies_closed :: bool
  workers :: "wstate list"
  collecting :: bool
  calls :: "(int \<times> nat list \<times> int) list"
  logs :: "string list"
  reported :: "int list option"
  panicked :: "error option"

definition init_sys :: "Benchmark \<Rightarrow> event list \<Rightarrow> sys" where
  "init_sys b evs =
     \<lparr>prog = evs, bench = b, keys = [], keys_closed = False, seq_closed = False,
      latencies = [], latencies_closed = False, workers = [], collecting = False,
      calls = [], logs = [], reported = None, panicked = None\<rparr>"

text \<open>
  The orchestrator performs its next event, if it can. The send on \<^verbatim>\<open>keys\<close> needs room in
  the buffer, whose capacity is \<^verbatim>\<open>Concurrency\<close>; \<^verbatim>\<open>Wait\<close> needs the counter of the wait group
  to be zero; the send on the unbuffered \<^verbatim>\<open>globalCouner\<close> needs a receiver and is the step
  \<open>Rendezvous\<close> below. A send on a closed channel panics.
\<close>

definition orch_step :: "sys \<Rightarrow> sys option" where
  "orch_step s =
     (case prog s of
        [] \<Rightarrow> None
      | ev # p \<Rightarrow>
          (case ev of
             ResetLatency \<Rightarrow> Some (s\<lparr>prog := p, bench := (bench s)\<lparr>latency := []\<rparr>\<rparr>)
           | GoCollect \<Rightarrow> Some (s\<lparr>prog := p, collecting := True\<rparr>)
           | GoWorker \<Rightarrow> Some (s\<lparr>prog := p, workers := workers s @ [Idle worker_vars0]\<rparr>)
           | DbInit \<Rightarrow> Some (s\<lparr>prog := p\<rparr>)
           | DbStop \<Rightarrow> Some (s\<lparr>prog := p\<rparr>)
           | SetStart t \<Rightarrow> Some (s\<lparr>prog := p, bench := (bench s)\<lparr>startTime := t\<rparr>\<rparr>)
           | WaitAdd \<Rightarrow> Some (s\<lparr>prog := p, bench := (bench s)\<lparr>wait := wait (bench s) + 1\<rparr>\<rparr>)
           | WaitWait \<Rightarrow> if wait (bench s) = 0 then Some (s\<lparr>prog := p\<rparr>) else None
           | SendKey k \<Rightarrow>
               if keys_closed s then Some (s\<lparr>panicked := Some ClosedChannel\<rparr>)
               else if int (length (keys s)) < Concurrency (bench s)
               then Some (s\<lparr>prog := p, keys := keys s @ [k]\<rparr>)
               else None
           | SendSeq n \<Rightarrow>
               if seq_closed s then Some (s\<lparr>panicked := Some ClosedChannel\<rparr>) else None
           | CloseKeys \<Rightarrow> Some (s\<lparr>prog := p, keys_closed := True\<rparr>)
           | CloseSeq \<Rightarrow> Some (s\<lparr>prog := p, seq_closed := True\<rparr>)
           | CloseLatencies \<Rightarrow> Some (s\<lparr>prog := p, latencies_closed := True\<rparr>)
           | Report \<Rightarrow> Some (s\<lparr>prog := p, reported := Some (latency (bench s))\<rparr>)))"

text \<open>
  Where a worker stands after the end of its loop body: at the send of the latency, or
  back at the head of the loop when there is none to send.
\<close>

definition after_finish :: "worker_vars \<Rightarrow> worker_out \<Rightarrow> wstate" where
  "after_finish l out = (case result out of Some t \<Rightarrow> Sending l t | None \<Rightarrow> Idle l)"

definition log_of :: "worker_out \<Rightarrow> string list" where
  "log_of out = (case logged out of Some m \<Rightarrow> [m] | None \<Rightarrow> [])"

text \<open>
  The steps, each named with the goroutine that takes it and with what the environment
  hands to it:
  \<^item> \<open>Orch\<close>: the orchestrator performs its next event;
  \<^item> \<open>Rendezvous i\<close>: the orchestrator sends on \<^verbatim>\<open>globalCouner\<close> and worker \<open>i\<close>, waiting at
    its receive, takes the number and calls \<^verbatim>\<open>Write\<close> with it;
  \<^item> \<open>Take i coin payload t1 t2\<close>: worker \<open>i\<close> receives the next key from \<^verbatim>\<open>keys\<close>, draws
    \<open>coin\<close> from \<^verbatim>\<open>rand.Float64\<close>, and either generates \<open>payload\<close>, reads the clock (\<open>t1\<close>) and
    goes to its receive, or, on the read branch, reads the clock twice and finishes the
    pass;
  \<^item> \<open>RecvClosed i\<close>: worker \<open>i\<close> receives the zero value from the closed \<^verbatim>\<open>globalCouner\<close>;
  \<^item> \<open>Return i werr t\<close>: the \<^verbatim>\<open>Write\<close> call of worker \<open>i\<close> returns \<open>werr\<close>, the worker reads
    the clock and finishes the pass;
  \<^item> \<open>Send i\<close>: worker \<open>i\<close> sends its latency on \<^verbatim>\<open>result\<close>, whose buffer holds 1000;
  \<^item> \<open>Exit i\<close>: worker \<open>i\<close> finds \<^verbatim>\<open>keys\<close> closed and empty and leaves its loop;
  \<^item> \<open>Collect\<close>: the collector receives a latency.
  A step that cannot be taken in the state has the value \<open>None\<close>.
\<close>

datatype action =
  Orch
  | Rendezvous nat
  | Take nat real "nat list" int int
  | RecvClosed nat
  | Return nat "string option" int
  | Send nat
  | Exit nat
  | Collect

definition worker_at :: "sys \<Rightarrow> nat \<Rightarrow> wstate option" where
  "worker_at s i = (if i < length (workers s) then Some (workers s ! i) else None)"

definition set_worker :: "sys \<Rightarrow> nat \<Rightarrow> wstate \<Rightarrow> sys" where
  "set_worker s i w = s\<lparr>workers := (workers s)[i := w]\<rparr>"

fun fire_live :: "action \<Rightarrow> sys \<Rightarrow> sys option" where
  "fire_live Orch s = orch_step s"
| "fire_live (Rendezvous i) s =
     (case (prog s, worker_at s i) of
        (SendSeq n # p, Some (Recv l k)) \<Rightarrow>
          if seq_closed s then None
          else Some ((set_worker s i (Writing l k n))
                       \<lparr>prog := p, calls := calls s @ [(k, var_v l, n)]\<rparr>)
      | _ \<Rightarrow> None)"
| "fire_live (Take i coin payload t1 t2) s =
     (case (worker_at s i, keys s) of
        (Some (Idle l), k # q) \<Rightarrow>
          if \<not> (0 \<le> coin \<and> coin < 1) then None
          else if coin < W (bench s)
          then Some ((set_worker s i (Recv (worker_begin_write l payload t1) k))\<lparr>keys := q\<rparr>)
          else
            (let (l', opn) = worker_read l t1 t2;
                 out = worker_finish (bench s) l' opn
             in Some ((set_worker s i (after_finish l' out))
                        \<lparr>keys := q, logs := logs s @ log_of out\<rparr>))
      | _ \<Rightarrow> None)"
| "fire_live (RecvClosed i) s =
     (case worker_at s i of
        Some (Recv l k) \<Rightarrow>
          if seq_closed s
          then Some ((set_worker s i (Writing l k 0))\<lparr>calls := calls s @ [(k, var_v l, 0)]\<rparr>)
          else None
      | _ \<Rightarrow> None)"
| "fire_live (Return i werr t) s =
     (case worker_at s i of
        Some (Writing l k n) \<Rightarrow>
          (let (l', opn) = worker_end_write l werr t;
               out = worker_finish (bench s) l' opn
           in Some ((set_worker s i (after_finish l' out))\<lparr>logs := logs s @ log_of out\<rparr>))
      | _ \<Rightarrow> None)"
| "fire_live (Send i) s =
     (case worker_at s i of
        Some (Sending l t) \<Rightarrow>
          if latencies_closed s then Some (s\<lparr>panicked := Some ClosedChannel\<rparr>)
          else if length (latencies s) < 1000
          then Some ((set_worker s i (Idle l))\<lparr>latencies := latencies s @ [t]\<rparr>)
          else None
      | _ \<Rightarrow> None)"
| "fire_live (Exit i) s =
     (case worker_at s i of
        Some (Idle l) \<Rightarrow>
          if keys s = [] \<and> keys_closed s then Some (set_worker s i Exited) else None
      | _ \<Rightarrow> None)"
| "fire_live Collect s =
     (case latencies s of
        [] \<Rightarrow> None
      | t # q \<Rightarrow>
          if \<not> collecting s then None
          else (case collect_one (bench s) t of
                  Inl e \<Rightarrow> Some (s\<lparr>panicked := Some e\<rparr>)
                | Inr b' \<Rightarrow> Some (s\<lparr>latencies := q, bench := b'\<rparr>)))"

text \<open>After a panic the process is gone and nothing steps.\<close>

definition fire :: "action \<Rightarrow> sys \<Rightarrow> sys option" where
  "fire a s = (if panicked s \<noteq> None then None else fire_live a s)"

text \<open>A schedule is a list of steps, taken one after the other.\<close>

fun run :: "action list \<Rightarrow> sys \<Rightarrow> sys option" where
  "run [] s = Some s"
| "run (a # as) s = (case fire a s of None \<Rightarrow> None | Some s' \<Rightarrow> run as s')"

text \<open>
  The states in which \<^verbatim>\<open>Run\<close> and \<^verbatim>\<open>Load\<close> start. \<^verbatim>\<open>Load\<close> has set the write ratio and
  \<^verbatim>\<open>Throttle\<close> before any goroutine starts.
\<close>

definition Run_sys :: "Benchmark \<Rightarrow> int \<Rightarrow> (nat \<Rightarrow> nat \<times> draws) \<Rightarrow> nat \<Rightarrow> sys" where
  "Run_sys b now envs fired = init_sys b (fst (Benchmark_Run b now envs fired))"

definition Load_sys :: "Benchmark \<Rightarrow> int \<Rightarrow> sys" where
  "Load_sys b now = init_sys (b\<lparr>W := 1, Throttle := 0\<rparr>) (fst (Benchmark_Load b now))"

text \<open>The number the orchestrator is about to send, if that is its next event.\<close>

fun awaiting :: "event list \<Rightarrow> int option" where
  "awaiting (SendSeq n # evs) = Some n"
| "awaiting evs = None"

text \<open>
  The pairs of a key and the number assigned to it when it was generated: in the events,
  the number is sent right after its key.
\<close>

fun pairs :: "event list \<Rightarrow> (int \<times> int) list" where
  "pairs [] = []"
| "pairs (ev # evs) =
     (case ev of
        SendKey k \<Rightarrow> (case awaiting evs of Some n \<Rightarrow> [(k, n)] | None \<Rightarrow> [])
      | _ \<Rightarrow> []) @ pairs evs"

text \<open>The key and the number of a \<^verbatim>\<open>Write\<close> call.\<close>

definition key_seq :: "int \<times> nat list \<times> int \<Rightarrow> int \<times> int" where
  "key_seq c = (fst c, snd (snd c))"

section \<open>Notions for the proofs\<close>

text \<open>
  An event list is well formed if every send of a key is followed at once by the send of
  a number, no number is sent otherwise, and nothing is sent once \<^verbatim>\<open>globalCouner\<close> is
  closed. The flag says that a number is due.
\<close>

fun well_sent :: "bool \<Rightarrow> event list \<Rightarrow> bool" where
  "well_sent due [] = (\<not> due)"
| "well_sent due (ev # evs) =
     (case ev of
        SendKey k \<Rightarrow> \<not> due \<and> well_sent True evs
      | SendSeq n \<Rightarrow> due \<and> well_sent False evs
      | CloseSeq \<Rightarrow> \<not> due \<and> sent_keys evs = [] \<and> sent_seqs evs = []
      | _ \<Rightarrow> \<not> due \<and> well_sent False evs)"

text \<open>The keys in the hands of workers that wait for a number.\<close>

fun recv_key :: "wstate \<Rightarrow> int list" where
  "recv_key (Recv l k) = [k]"
| "recv_key w = []"

definition recv_keys :: "wstate list \<Rightarrow> int list" where
  "recv_keys ws = concat (map recv_key ws)"

text \<open>The keys sent and not yet paired with a number: in the channel or in such hands.\<close>

definition outstanding :: "sys \<Rightarrow> int list" where
  "outstanding s = keys s @ recv_keys (workers s)"

text \<open>
  The invariant of the pairing, for the event list \<open>P\<close> the orchestrator started with: the
  calls made so far are a first part of the pairs of \<open>P\<close>, what follows them are the
  pairs still in the events, and at most one key is outstanding, namely the key whose
  number the orchestrator is about to send.
\<close>

definition pairing_inv :: "event list \<Rightarrow> sys \<Rightarrow> bool" where
  "pairing_inv P s =
     (well_sent (awaiting (prog s) \<noteq> None) (prog s) \<and>
      (case awaiting (prog s) of
         None \<Rightarrow> outstanding s = [] \<and> pairs P = map key_seq (calls s) @ pairs (prog s)
       | Some n \<Rightarrow>
           \<not> seq_closed s \<and>
           (\<exists>k. pairs P = map key_seq (calls s) @ (k, n) # pairs (prog s) \<and>
                (outstanding s = [k] \<or> outstanding s = []))) \<and>
      (seq_closed s \<longrightarrow> sent_keys (prog s) = [] \<and> sent_seqs (prog s) = []))"



section \<open>Concrete inputs\<close>

text \<open>The draws used where the random sources do not matter.\<close>

definition zero_draws :: draws where
  "zero_draws = \<lparr>Intn = 0, NormFloat64 = 0, ExpFloat64 = 0, Uint64 = 0\<rparr>"

text \<open>
  A new benchmark in \<^verbatim>\<open>conflict\<close> mode on the key space \<open>[5, 15)\<close>, with the default
  conflict percentage of 100.
\<close>

definition hot_key_bench :: Benchmark where
  "hot_key_bench =
     NewBenchmark (DefaultBConfig\<lparr>K := 10, Distribution := ''conflict'', Min' := 5\<rparr>)"


text \<open>
  A new benchmark for a count-based run of three passes in \<^verbatim>\<open>order\<close> mode over ten keys,
  and an environment in which the scheduled task never fires.
\<close>

definition order_bench :: Benchmark where
  "order_bench =
     NewBenchmark (DefaultBConfig\<lparr>T := 0, N := 3, K := 10, Distribution := ''order''\<rparr>)"

definition order_envs :: "nat \<Rightarrow> nat \<times> draws" where
  "order_envs i = (0, zero_draws)"

text \<open>
  A benchmark with a write ratio of one half; a pass whose draw \<open>1/4\<close> selects the write
  branch and whose \<^verbatim>\<open>Write\<close> fails; a pass whose draw \<open>3/4\<close> selects the synthetic read.
\<close>

definition half_bench :: Benchmark where
  "half_bench = NewBenchmark (DefaultBConfig\<lparr>W := 1 / 2\<rparr>)"

definition failed_write_env :: worker_env where
  "failed_write_env =
     \<lparr>Float64 = 1 / 4, RandVal = [1, 2, 3], Now1 = 10, Now2 = 20, Seq = 0,
      Write_err = Some ''timeout''\<rparr>"

definition read_env :: worker_env where
  "read_env =
     \<lparr>Float64 = 3 / 4, RandVal = [], Now1 = 30, Now2 = 30, Seq = 0, Write_err = None\<rparr>"

text \<open>
  A new benchmark for a count-based run of one pass, and one for a time-based run (the
  default \<open>T = 60\<close>), both in \<^verbatim>\<open>order\<close> mode over ten keys with one worker.
\<close>

definition one_bench :: Benchmark where
  "one_bench =
     NewBenchmark (DefaultBConfig\<lparr>T := 0, N := 1, K := 10, Distribution := ''order''\<rparr>)"

definition timed_bench :: Benchmark where
  "timed_bench = NewBenchmark (DefaultBConfig\<lparr>K := 10, Distribution := ''order''\<rparr>)"

text \<open>
  A schedule for the start of such a run: the orchestrator performs its five events of
  preparation, adds to the wait group and sends the first key; worker 0 takes the key on
  the write branch, and the orchestrator hands it the number. Then either the \<^verbatim>\<open>Write\<close>
  call returns an error, or, in the time-based run whose timer has fired after the first
  pass, the orchestrator goes on alone through \<^verbatim>\<open>Stop\<close>, the two \<^verbatim>\<open>close\<close> calls and the
  report while the call is still in flight.
\<close>

definition start_schedule :: "action list" where
  "start_schedule =
     [Orch, Orch, Orch, Orch, Orch, Orch, Orch, Take 0 0 [1, 2, 3] 10 10, Rendezvous 0]"

definition failed_write_schedule :: "action list" where
  "failed_write_schedule = start_schedule @ [Return 0 (Some ''timeout'') 20]"

definition timer_schedule :: "action list" where
  "timer_schedule = start_schedule @ [Orch, Orch, Orch, Orch]"

text \<open>
  The time-based run continued: the orchestrator performs the deferred close of
  \<^verbatim>\<open>latencies\<close>, then the \<^verbatim>\<open>Write\<close> call that was in flight returns without error and the
  worker goes to send its latency.
\<close>

definition late_return_schedule :: "action list" where
  "late_return_schedule = timer_schedule @ [Orch, Return 0 None 20, Send 0]"

section \<open>Properties of the integer model\<close>

lemmas bench_eval = NewBenchmark_def DefaultBConfig_def Bconfig.extend_def Benchmark.fields_def

lemma wrap64_id: "int64 x \<Longrightarrow> wrap64 x = x"
  by (simp add: wrap64_def int64_def)


lemma int64_go_int: "int64 (go_int x)"
  by (simp add: go_int_def Let_def int64_def)

lemma smod_nonneg: "0 \<le> a \<Longrightarrow> 0 < b \<Longrightarrow> a smod b = a mod (b :: int)"
  by (cases "a = 0") (simp_all add: signed_modulo_int_def)

section \<open>Key generation: the folding loops\<close>

text \<open>With \<open>1 \<le> k\<close> the adding loop ends, at a value that is not negative.\<close>

lemma add_loop_terminates:
  assumes "1 \<le> k" "int64 k"
  shows "int64 key \<Longrightarrow> \<exists>r. normal_add_loop k key = Some r \<and> 0 \<le> r \<and> int64 r"
proof (induction "nat (- key)" arbitrary: key rule: less_induct)
  case less
  show ?case
  proof (cases "key < 0")
    case False
    then show ?thesis using less.prems by (simp add: normal_add_loop.simps)
  next
    case True
    have r: "int64 (key + k)" using True less.prems assms by (simp add: int64_def)
    then have w: "wrap64 (key + k) = key + k" by (rule wrap64_id)
    have "nat (- (key + k)) < nat (- key)" using True assms by simp
    from less.hyps [OF this r] obtain r' where
      "normal_add_loop k (key + k) = Some r'" "0 \<le> r'" "int64 r'" by blast
    then show ?thesis using True w by (subst normal_add_loop.simps) simp
  qed
qed

text \<open>With \<open>1 \<le> k\<close> the subtracting loop ends, inside \<open>[0, k]\<close> when it starts at \<open>0\<close> or above.\<close>

lemma sub_loop_terminates:
  assumes "1 \<le> k"
  shows "0 \<le> key \<Longrightarrow> int64 key \<Longrightarrow>
    \<exists>r. normal_sub_loop k key = Some r \<and> 0 \<le> r \<and> r \<le> k"
proof (induction "nat key" arbitrary: key rule: less_induct)
  case less
  show ?case
  proof (cases "key > k")
    case False
    then show ?thesis using less.prems by (simp add: normal_sub_loop.simps)
  next
    case True
    have r: "int64 (key - k)" using True less.prems assms by (simp add: int64_def)
    then have w: "wrap64 (key - k) = key - k" by (rule wrap64_id)
    have "nat (key - k) < nat key" using True assms by simp
    from less.hyps [OF this _ r] True obtain r' where
      "normal_sub_loop k (key - k) = Some r'" "0 \<le> r'" "r' \<le> k" by fastforce
    then show ?thesis using True w by (subst normal_sub_loop.simps) simp
  qed
qed

text \<open>With \<open>k = 0\<close> the adding loop has no result on a negative key: it never ends.\<close>

lemma add_loop_no_result:
  "normal_add_loop k key = Some r \<Longrightarrow> \<not> (k = 0 \<and> key < 0 \<and> int64 key)"
proof (rule normal_add_loop.raw_induct
    [where P = "\<lambda>k key r. \<not> (k = 0 \<and> key < 0 \<and> int64 key)"])
  fix f :: "int \<Rightarrow> int \<Rightarrow> int option" and k key r
  assume ih: "\<And>k key r. f k key = Some r \<Longrightarrow> \<not> (k = 0 \<and> key < 0 \<and> int64 key)"
    and eq: "(if key < 0 then f k (wrap64 (key + k)) else Some key) = Some r"
  show "\<not> (k = 0 \<and> key < 0 \<and> int64 key)"
  proof
    assume a: "k = 0 \<and> key < 0 \<and> int64 key"
    then have "wrap64 (key + k) = key" by (simp add: wrap64_id)
    with eq a have "f k key = Some r" by simp
    from ih [OF this] a show False by blast
  qed
qed

lemma add_loop_diverges:
  assumes "key < 0" "int64 key"
  shows "normal_add_loop 0 key = None"
  using assms add_loop_no_result [of 0 key] by (cases "normal_add_loop 0 key") auto

section \<open>Key generation: the range of the keys\<close>

lemma advance_counter_ok:
  assumes "1 \<le> K b" "int64 (K b)" "- 1 \<le> counter b" "counter b < K b"
    "int64 (Min' b)" "Min' b + K b \<le> 2 ^ 63"
  shows "\<exists>c. advance_counter b = Inr (c + Min' b, b\<lparr>counter := c\<rparr>) \<and> 0 \<le> c \<and> c < K b"
proof -
  have i: "int64 (counter b + 1)" using assms by (simp add: int64_def)
  let ?c = "(counter b + 1) mod K b"
  have c: "0 \<le> ?c" "?c < K b" using assms by simp_all
  have r: "go_rem (wrap64 (counter b + 1)) (K b) = Inr ?c"
    using assms i by (simp add: go_rem_def wrap64_id smod_nonneg)
  have "int64 (?c + Min' b)" using c assms unfolding int64_def by linarith
  then have "wrap64 (?c + Min' b) = ?c + Min' b" by (rule wrap64_id)
  with r c show ?thesis by (simp add: advance_counter_def)
qed

lemma advance_counter_returns:
  assumes "K b \<noteq> 0"
  shows "\<exists>key b'. advance_counter b = Inr (key, b')"
  using assms by (simp add: advance_counter_def go_rem_def)

text \<open>
  Claim C5, as the code has it. Let the key space be representable (\<open>K\<close> and \<open>Min\<close> are
  Go integers and \<open>Min + K\<close> does not overflow), let the counter be where \<^verbatim>\<open>NewBenchmark\<close>
  and earlier calls leave it (\<open>-1 \<le> counter < K\<close>), and let \<^verbatim>\<open>rand.Intn\<close> keep its contract.
  With \<open>K \<ge> 1\<close>, \<^verbatim>\<open>next\<close> returns under \<^verbatim>\<open>order\<close>, \<^verbatim>\<open>uniform\<close> and \<^verbatim>\<open>conflict\<close>. The key lies
  in \<open>[Min, Min + K)\<close> under \<^verbatim>\<open>order\<close> and \<^verbatim>\<open>uniform\<close>, and under \<^verbatim>\<open>conflict\<close> when the draw
  is not below \<^verbatim>\<open>Conflicts\<close>; under \<^verbatim>\<open>conflict\<close> with a draw below \<^verbatim>\<open>Conflicts\<close> the key is
  the fixed hot key \<open>0\<close>, whatever \<open>Min\<close> is. The counter stays in its range and the
  configuration is unchanged, so that the same holds for the next call.
\<close>

theorem next_key_range:
  assumes "1 \<le> K b" and "int64 (K b)" and "int64 (Min' b)" and "Min' b + K b \<le> 2 ^ 63"
    and "- 1 \<le> counter b" and "counter b < K b"
    and "Distribution b = ''order'' \<or> Distribution b = ''uniform'' \<or> Distribution b = ''conflict''"
    and "0 \<le> Intn d" and "Intn d < (if Distribution b = ''conflict'' then 100 else K b)"
  shows "\<exists>key b'. Benchmark_next b d = Some (Inr (key, b')) \<and>
           (if Distribution b = ''conflict'' \<and> Intn d < Conflicts b then key = 0
            else Min' b \<le> key \<and> key < Min' b + K b) \<and>
           - 1 \<le> counter b' \<and> counter b' < K b' \<and>
           K b' = K b \<and> Min' b' = Min' b \<and> Distribution b' = Distribution b \<and>
           Conflicts b' = Conflicts b"
proof -
  from advance_counter_ok [OF assms(1,2,5,6,3,4)] obtain c where
    c: "advance_counter b = Inr (c + Min' b, b\<lparr>counter := c\<rparr>)" "0 \<le> c" "c < K b" by blast
  consider (order) "Distribution b = ''order''" | (uniform) "Distribution b = ''uniform''"
    | (conflict) "Distribution b = ''conflict''" using assms(7) by blast
  then show ?thesis
  proof cases
    case order
    with c show ?thesis by (simp add: Benchmark_next_def next_switch_def)
  next
    case uniform
    have "int64 (Intn d + Min' b)" using assms uniform unfolding int64_def by simp
    then have "wrap64 (Intn d + Min' b) = Intn d + Min' b" by (rule wrap64_id)
    with uniform assms show ?thesis
      by (simp add: Benchmark_next_def next_switch_def rand_Intn_def)
  next
    case conflict
    with c assms(5,6) show ?thesis
      by (simp add: Benchmark_next_def next_switch_def rand_Intn_def)
  qed
qed

text \<open>
  Claim C5, witness: a new benchmark with the default configuration (\<^verbatim>\<open>uniform\<close>,
  \<open>K = 1000\<close>, \<open>Min = 0\<close>) and the draw 7.
\<close>

theorem next_key_range_witness:
  "1 \<le> K (NewBenchmark DefaultBConfig) \<and> int64 (K (NewBenchmark DefaultBConfig)) \<and>
   - 1 \<le> counter (NewBenchmark DefaultBConfig) \<and>
   Distribution (NewBenchmark DefaultBConfig) = ''uniform'' \<and>
   Intn (zero_draws\<lparr>Intn := 7\<rparr>) < K (NewBenchmark DefaultBConfig) \<and>
   (\<exists>key b'. Benchmark_next (NewBenchmark DefaultBConfig) (zero_draws\<lparr>Intn := 7\<rparr>) =
        Some (Inr (key, b')) \<and>
      Min' (NewBenchmark DefaultBConfig) \<le> key \<and>
      key < Min' (NewBenchmark DefaultBConfig) + K (NewBenchmark DefaultBConfig))"
  using next_key_range [of "NewBenchmark DefaultBConfig" "zero_draws\<lparr>Intn := 7\<rparr>"]
  by (auto simp add: bench_eval zero_draws_def int64_def)

text \<open>
  Claim C5 as stated fails: in \<^verbatim>\<open>conflict\<close> mode with \<open>K = 10\<close>, \<open>Min = 5\<close> and
  \<open>Conflicts = 100\<close>, \<^verbatim>\<open>next\<close> returns the key \<open>0\<close>, which is outside \<open>[5, 15)\<close>.
\<close>

theorem conflict_hot_key_out_of_range:
  "Benchmark_next hot_key_bench zero_draws = Some (Inr (0, hot_key_bench)) \<and>
   1 \<le> K hot_key_bench \<and>
   \<not> (Min' hot_key_bench \<le> 0 \<and> 0 < Min' hot_key_bench + K hot_key_bench)"
  by (simp add: hot_key_bench_def zero_draws_def Benchmark_next_def next_switch_def
      rand_Intn_def bench_eval)

text \<open>
  Claim C6: under the \<^verbatim>\<open>normal\<close> distribution with \<open>K \<ge> 1\<close>, \<^verbatim>\<open>next\<close> returns, and the key
  it returns after the two folding loops lies in the closed interval \<open>[0, K]\<close>, whatever
  the draw, \<^verbatim>\<open>Sigma\<close> and \<^verbatim>\<open>Mu\<close> are.
\<close>

theorem normal_key_range:
  assumes "1 \<le> K b" and "int64 (K b)" and "Distribution b = ''normal''"
  shows "\<exists>key b'. Benchmark_next b d = Some (Inr (key, b')) \<and> 0 \<le> key \<and> key \<le> K b"
proof -
  let ?k0 = "go_int (NormFloat64 d * Sigma' b + Mu b)"
  from add_loop_terminates [OF assms(1,2) int64_go_int] obtain k1 where
    k1: "normal_add_loop (K b) ?k0 = Some k1" "0 \<le> k1" "int64 k1" by blast
  from sub_loop_terminates [OF assms(1) k1(2,3)] obtain k2 where
    k2: "normal_sub_loop (K b) k1 = Some k2" "0 \<le> k2" "k2 \<le> K b" by blast
  from k1 k2 assms(3) show ?thesis
    by (simp add: Benchmark_next_def next_switch_def)
qed

text \<open>
  Claim C6, witness: the default configuration in \<^verbatim>\<open>normal\<close> mode (\<open>K = 1000\<close>,
  \<open>Sigma = 60\<close>, \<open>Mu = 0\<close>) and the draw \<open>-50\<close>, which gives the negative value \<open>-3000\<close>
  before folding.
\<close>

theorem normal_key_range_witness:
  "1 \<le> K (NewBenchmark (DefaultBConfig\<lparr>Distribution := ''normal''\<rparr>)) \<and>
   int64 (K (NewBenchmark (DefaultBConfig\<lparr>Distribution := ''normal''\<rparr>))) \<and>
   (\<exists>key b'. Benchmark_next (NewBenchmark (DefaultBConfig\<lparr>Distribution := ''normal''\<rparr>))
        (zero_draws\<lparr>NormFloat64 := - 50\<rparr>) = Some (Inr (key, b')) \<and>
      0 \<le> key \<and> key \<le> K (NewBenchmark (DefaultBConfig\<lparr>Distribution := ''normal''\<rparr>)))"
  using normal_key_range [of "NewBenchmark (DefaultBConfig\<lparr>Distribution := ''normal''\<rparr>)"
      "zero_draws\<lparr>NormFloat64 := - 50\<rparr>"]
  by (simp add: bench_eval int64_def)

text \<open>
  Claim C7 at the name \<^verbatim>\<open>zipfian\<close>: the case label of the switch is spelled \<^verbatim>\<open>zipfan\<close>, so
  a benchmark configured with the distribution \<^verbatim>\<open>zipfian\<close> reaches the default case and
  ends with the fatal error for an unknown distribution, whatever the generators draw.
\<close>

theorem zipfian_name_rejected:
  "Benchmark_next (NewBenchmark (DefaultBConfig\<lparr>Distribution := ''zipfian''\<rparr>)) d =
     Some (Inl (Fatal ''unknown distribution zipfian''))"
  by (simp add: Benchmark_next_def next_switch_def bench_eval)

text \<open>The generator is reached under the name \<^verbatim>\<open>zipfan\<close>, and its state moves on.\<close>

lemma zipfan_draws:
  "Benchmark_next (NewBenchmark (DefaultBConfig\<lparr>Distribution := ''zipfan''\<rparr>))
       (zero_draws\<lparr>Uint64 := 7\<rparr>) =
     Some (Inr (7, (NewBenchmark (DefaultBConfig\<lparr>Distribution := ''zipfan''\<rparr>))\<lparr>zipf := Some 1\<rparr>))"
  by (simp add: Benchmark_next_def next_switch_def bench_eval wrap64_def zero_draws_def)

text \<open>
  Claim C10: with \<open>K = 0\<close> the \<^verbatim>\<open>order\<close> mode, and the \<^verbatim>\<open>conflict\<close> mode when the draw is
  not below \<^verbatim>\<open>Conflicts\<close>, stop with the panic of an integer division by zero, and the
  \<^verbatim>\<open>normal\<close> mode does not return when the converted draw is negative; with \<open>K \<le> 0\<close> the
  \<^verbatim>\<open>uniform\<close> mode stops with the panic of \<^verbatim>\<open>rand.Intn\<close>. With \<open>K \<ge> 1\<close> the \<^verbatim>\<open>order\<close>,
  \<^verbatim>\<open>conflict\<close> and \<^verbatim>\<open>normal\<close> branches all return a key.
\<close>

theorem next_total_needs_positive_K:
  "(K b = 0 \<and> Distribution b = ''order'' \<longrightarrow> Benchmark_next b d = Some (Inl DivideByZero)) \<and>
   (K b = 0 \<and> Distribution b = ''conflict'' \<and> \<not> Intn d < Conflicts b \<longrightarrow>
      Benchmark_next b d = Some (Inl DivideByZero)) \<and>
   (K b = 0 \<and> Distribution b = ''normal'' \<and> go_int (NormFloat64 d * Sigma' b + Mu b) < 0 \<longrightarrow>
      Benchmark_next b d = None) \<and>
   (K b \<le> 0 \<and> Distribution b = ''uniform'' \<longrightarrow> Benchmark_next b d = Some (Inl IntnInvalid)) \<and>
   (1 \<le> K b \<and> int64 (K b) \<and>
    (Distribution b = ''order'' \<or> Distribution b = ''conflict'' \<or> Distribution b = ''normal'') \<longrightarrow>
      (\<exists>key b'. Benchmark_next b d = Some (Inr (key, b'))))"
proof (intro conjI impI)
  assume "K b = 0 \<and> Distribution b = ''order''"
  then show "Benchmark_next b d = Some (Inl DivideByZero)"
    by (simp add: Benchmark_next_def next_switch_def advance_counter_def go_rem_def)
next
  assume "K b = 0 \<and> Distribution b = ''conflict'' \<and> \<not> Intn d < Conflicts b"
  then show "Benchmark_next b d = Some (Inl DivideByZero)"
    by (simp add: Benchmark_next_def next_switch_def rand_Intn_def advance_counter_def go_rem_def)
next
  assume a: "K b = 0 \<and> Distribution b = ''normal'' \<and> go_int (NormFloat64 d * Sigma' b + Mu b) < 0"
  then have "normal_add_loop (K b) (go_int (NormFloat64 d * Sigma' b + Mu b)) = None"
    using add_loop_diverges [OF _ int64_go_int] by simp
  with a show "Benchmark_next b d = None"
    by (simp add: Benchmark_next_def next_switch_def)
next
  assume "K b \<le> 0 \<and> Distribution b = ''uniform''"
  then show "Benchmark_next b d = Some (Inl IntnInvalid)"
    by (simp add: Benchmark_next_def next_switch_def rand_Intn_def)
next
  assume a: "1 \<le> K b \<and> int64 (K b) \<and>
    (Distribution b = ''order'' \<or> Distribution b = ''conflict'' \<or> Distribution b = ''normal'')"
  then have nz: "K b \<noteq> 0" by simp
  from advance_counter_returns [OF nz] obtain key0 b0 where
    adv: "advance_counter b = Inr (key0, b0)" by blast
  let ?k0 = "go_int (NormFloat64 d * Sigma' b + Mu b)"
  consider (order) "Distribution b = ''order''" | (conflict) "Distribution b = ''conflict''"
    | (normal) "Distribution b = ''normal''" using a by blast
  then show "\<exists>key b'. Benchmark_next b d = Some (Inr (key, b'))"
  proof cases
    case order
    with adv show ?thesis by (simp add: Benchmark_next_def next_switch_def)
  next
    case conflict
    with adv show ?thesis by (simp add: Benchmark_next_def next_switch_def rand_Intn_def)
  next
    case normal
    from a add_loop_terminates [OF _ _ int64_go_int, of "K b"] obtain k1 where
      k1: "normal_add_loop (K b) ?k0 = Some k1" "0 \<le> k1" "int64 k1" by blast
    from a sub_loop_terminates [OF _ k1(2,3), of "K b"] obtain k2 where
      k2: "normal_sub_loop (K b) k1 = Some k2" by blast
    from k1 k2 normal show ?thesis by (simp add: Benchmark_next_def next_switch_def)
  qed
qed

text \<open>
  Claim C10, witness: the default configuration with \<open>K = 0\<close> in each of the four modes,
  and with its own \<open>K = 1000\<close> in \<^verbatim>\<open>normal\<close> mode on a negative draw.
\<close>

theorem next_total_needs_positive_K_witness:
  "Benchmark_next (NewBenchmark (DefaultBConfig\<lparr>K := 0, Distribution := ''order''\<rparr>)) zero_draws
     = Some (Inl DivideByZero) \<and>
   Benchmark_next
       (NewBenchmark (DefaultBConfig\<lparr>K := 0, Distribution := ''conflict'', Conflicts := 0\<rparr>))
       zero_draws = Some (Inl DivideByZero) \<and>
   Benchmark_next (NewBenchmark (DefaultBConfig\<lparr>K := 0, Distribution := ''normal''\<rparr>))
       (zero_draws\<lparr>NormFloat64 := - 1\<rparr>) = None \<and>
   Benchmark_next (NewBenchmark (DefaultBConfig\<lparr>K := 0\<rparr>)) zero_draws = Some (Inl IntnInvalid) \<and>
   (\<exists>key b'. Benchmark_next (NewBenchmark (DefaultBConfig\<lparr>Distribution := ''normal''\<rparr>))
       (zero_draws\<lparr>NormFloat64 := - 1\<rparr>) = Some (Inr (key, b')))"
  using
    next_total_needs_positive_K
      [of "NewBenchmark (DefaultBConfig\<lparr>K := 0, Distribution := ''order''\<rparr>)" zero_draws]
    next_total_needs_positive_K
      [of "NewBenchmark (DefaultBConfig\<lparr>K := 0, Distribution := ''conflict'', Conflicts := 0\<rparr>)"
        zero_draws]
    next_total_needs_positive_K
      [of "NewBenchmark (DefaultBConfig\<lparr>K := 0, Distribution := ''normal''\<rparr>)"
        "zero_draws\<lparr>NormFloat64 := - 1\<rparr>"]
    next_total_needs_positive_K [of "NewBenchmark (DefaultBConfig\<lparr>K := 0\<rparr>)" zero_draws]
    next_total_needs_positive_K
      [of "NewBenchmark (DefaultBConfig\<lparr>Distribution := ''normal''\<rparr>)"
        "zero_draws\<lparr>NormFloat64 := - 1\<rparr>"]
  by (simp add: bench_eval zero_draws_def int64_def go_int_def)

section \<open>The events of \<^verbatim>\<open>Load\<close> and \<^verbatim>\<open>Run\<close>\<close>


lemma sent_keys_append: "sent_keys (xs @ ys) = sent_keys xs @ sent_keys ys"
  by (induction xs rule: sent_keys.induct) simp_all

lemma sent_seqs_append: "sent_seqs (xs @ ys) = sent_seqs xs @ sent_seqs ys"
  by (induction xs rule: sent_seqs.induct) simp_all

lemma sent_keys_GoWorker: "sent_keys (replicate n GoWorker) = []"
  by (induction n) simp_all

lemma sent_seqs_GoWorker: "sent_seqs (replicate n GoWorker) = []"
  by (induction n) simp_all


lemma upt_0_3: "[0..<3] = [0, 1, 2]"
  by (simp add: numeral_3_eq_3 upt_rec)


text \<open>Every key of the loop of \<^verbatim>\<open>Load\<close> goes with the unchanged \<^verbatim>\<open>b.globalCouner\<close>.\<close>

lemma Load_loop_seqs:
  "sent_seqs (Load_loop b i) = replicate (length (sent_keys (Load_loop b i))) (globalCouner b)"
proof (induction b i rule: Load_loop.induct)
  case (1 b i)
  show ?case
  proof (cases "i < wrap64 (Min' b + K b)")
    case False
    then show ?thesis by (subst (1 2) Load_loop.simps) simp
  next
    case True
    with "1.IH" show ?thesis by (subst (1 2) Load_loop.simps) simp
  qed
qed


lemma Load_seqs:
  assumes "0 \<le> Concurrency b"
  shows "sent_seqs (fst (Benchmark_Load b now)) =
    replicate (length (sent_keys (fst (Benchmark_Load b now)))) (globalCouner b)"
  using assms Load_loop_seqs [of "b\<lparr>W := 1, Throttle := 0\<rparr>" "Min' b"]
  by (simp add: Benchmark_Load_def Let_def sent_keys_append sent_keys_GoWorker sent_seqs_append
      sent_seqs_GoWorker)

text \<open>Neither \<^verbatim>\<open>next\<close> nor the scheduled task touches \<^verbatim>\<open>b.globalCouner\<close>.\<close>

lemma next_switch_fields:
  "next_switch b d = Some (Inr (key, b')) \<Longrightarrow> b' = b\<lparr>counter := counter b', zipf := zipf b'\<rparr>"
  by (auto simp: next_switch_def advance_counter_def
      split: if_splits sum.splits option.splits bind_splits)

lemma next_globalCouner:
  assumes "Benchmark_next b d = Some (Inr (key, b'))"
  shows "globalCouner b' = globalCouner b"
proof -
  from assms obtain b1 where s: "next_switch b d = Some (Inr (key, b1))"
    and b': "b' = (if 0 < Throttle b1 then b1\<lparr>rate := map_option Suc (rate b1)\<rparr> else b1)"
    by (auto simp: Benchmark_next_def split: option.splits sum.splits prod.splits)
  from next_switch_fields [OF s]
  have "globalCouner b1 = globalCouner (b\<lparr>counter := counter b1, zipf := zipf b1\<rparr>)" by simp
  with b' show ?thesis by simp
qed

lemma move_globalCouner: "move b = Inr b' \<Longrightarrow> globalCouner b' = globalCouner b"
  by (auto simp: move_def split: sum.splits)

lemma moves_globalCouner: "moves n b = Inr b' \<Longrightarrow> globalCouner b' = globalCouner b"
proof (induction n arbitrary: b)
  case 0
  then show ?case by simp
next
  case (Suc n)
  then show ?case by (auto split: sum.splits dest: move_globalCouner)
qed

text \<open>
  One pass of the submitting loop either ends the run of the orchestrator, after at most
  the \<^verbatim>\<open>Add\<close> on the wait group, or sends a key and then the incremented counter.
\<close>

lemma submit_loop_Cons_cases:
  obtains (stopped) evs out where "submit_loop b ((ticks, d) # rest) = (evs, out)"
      "evs = [] \<or> evs = [WaitAdd]" "\<forall>b'. out \<noteq> Returns b'"
  | (passed) key b1 where "globalCouner b1 = wrap64 (globalCouner b + 1)"
      "submit_loop b ((ticks, d) # rest) =
         (WaitAdd # SendKey key # SendSeq (globalCouner b1) # fst (submit_loop b1 rest),
          snd (submit_loop b1 rest))"
proof (cases "if Move b then moves ticks b else Inr b")
  case (Inl e)
  then have "submit_loop b ((ticks, d) # rest) = ([], Panics e)" by simp
  then show ?thesis by (rule stopped) simp_all
next
  case (Inr b0)
  then have g0: "globalCouner b0 = globalCouner b"
    by (auto split: if_splits dest: moves_globalCouner)
  show ?thesis
  proof (cases "Benchmark_next b0 d")
    case None
    with Inr have "submit_loop b ((ticks, d) # rest) = ([WaitAdd], Hangs)" by simp
    then show ?thesis by (rule stopped) simp_all
  next
    case (Some r)
    show ?thesis
    proof (cases r)
      case (Inl e)
      with Inr Some have "submit_loop b ((ticks, d) # rest) = ([WaitAdd], Panics e)" by simp
      then show ?thesis by (rule stopped) simp_all
    next
      case r: (Inr kb)
      obtain key b1 where kb: "kb = (key, b1)" by (cases kb)
      from Some r kb have n: "Benchmark_next b0 d = Some (Inr (key, b1))" by simp
      from next_globalCouner [OF n] g0 have g1: "globalCouner b1 = globalCouner b" by simp
      let ?b2 = "b1\<lparr>globalCouner := wrap64 (globalCouner b1 + 1)\<rparr>"
      have "globalCouner ?b2 = wrap64 (globalCouner b + 1)" using g1 by simp
      moreover have "submit_loop b ((ticks, d) # rest) =
         (WaitAdd # SendKey key # SendSeq (globalCouner ?b2) # fst (submit_loop ?b2 rest),
          snd (submit_loop ?b2 rest))"
        using Inr n by (simp add: Let_def split_beta)
      ultimately show ?thesis by (rule passed)
    qed
  qed
qed

lemma submit_loop_seqs:
  assumes "int64 (globalCouner b)" "globalCouner b + int (length envs) < 2 ^ 63"
  shows "sent_seqs (fst (submit_loop b envs)) =
           map (\<lambda>i. globalCouner b + 1 + int i)
             [0..<length (sent_keys (fst (submit_loop b envs)))]"
  using assms
proof (induction envs arbitrary: b)
  case Nil
  then show ?case by simp
next
  case (Cons a envs)
  obtain ticks d where a: "a = (ticks, d)" by (cases a)
  show ?case
  proof (cases b ticks d envs rule: submit_loop_Cons_cases)
    case (stopped evs out)
    then show ?thesis using a by auto
  next
    case (passed key b1)
    have i: "int64 (globalCouner b + 1)" using Cons.prems by (simp add: int64_def)
    then have g: "globalCouner b1 = globalCouner b + 1" using passed(1) by (simp add: wrap64_id)
    have ih: "sent_seqs (fst (submit_loop b1 envs)) =
           map (\<lambda>i. globalCouner b1 + 1 + int i)
             [0..<length (sent_keys (fst (submit_loop b1 envs)))]"
      using Cons.prems i g by (intro Cons.IH) simp_all
    let ?m = "length (sent_keys (fst (submit_loop b1 envs)))"
    have "map (\<lambda>i. globalCouner b + 1 + int i) [0..<Suc ?m] =
              (globalCouner b + 1) # map (\<lambda>i. globalCouner b + 1 + 1 + int i) [0..<?m]"
      by (simp add: upt_rec [of 0] map_Suc_upt [symmetric] del: upt_Suc)
    with ih g a passed(2) show ?thesis
      by (simp del: upt_Suc submit_loop.simps)
  qed
qed

lemma submit_loop_returns_length:
  "snd (submit_loop b envs) = Returns b' \<Longrightarrow>
     length (sent_keys (fst (submit_loop b envs))) = length envs"
proof (induction envs arbitrary: b)
  case Nil
  then show ?case by simp
next
  case (Cons a envs)
  obtain ticks d where a: "a = (ticks, d)" by (cases a)
  show ?case
  proof (cases b ticks d envs rule: submit_loop_Cons_cases)
    case (stopped evs out)
    with Cons.prems a show ?thesis by simp
  next
    case (passed key b1)
    with Cons.prems a have "snd (submit_loop b1 envs) = Returns b'" by simp
    from Cons.IH [OF this] passed(2) a show ?thesis by simp
  qed
qed

lemma Run_sends:
  "sent_keys (fst (Benchmark_Run b now envs fired)) =
     (if Concurrency b < 0 then []
      else sent_keys (fst (submit_loop (b\<lparr>latency := [], startTime := now\<rparr>)
             (map envs [0..<(if 0 < T b then fired else nat (N b))]))))"
  "sent_seqs (fst (Benchmark_Run b now envs fired)) =
     (if Concurrency b < 0 then []
      else sent_seqs (fst (submit_loop (b\<lparr>latency := [], startTime := now\<rparr>)
             (map envs [0..<(if 0 < T b then fired else nat (N b))]))))"
  by (simp_all add: Benchmark_Run_def Let_def split_beta sent_keys_append sent_seqs_append
      sent_keys_GoWorker sent_seqs_GoWorker split: outcome.splits)

lemma order_run:
  "fst (Benchmark_Run order_bench 0 order_envs 0) =
    [ResetLatency, GoCollect, GoWorker, DbInit, SetStart 0,
     WaitAdd, SendKey 0, SendSeq 0, WaitAdd, SendKey 1, SendSeq 1, WaitAdd, SendKey 2, SendSeq 2,
     WaitWait, DbStop, CloseKeys, CloseSeq, Report, CloseLatencies]"
  by (simp add: Benchmark_Run_def order_bench_def order_envs_def zero_draws_def bench_eval Let_def
      Benchmark_next_def next_switch_def advance_counter_def go_rem_def wrap64_def
      signed_modulo_int_def upt_0_3)

text \<open>
  Claim C3, as the code has it. In a run of \<^verbatim>\<open>Run\<close>, time-based or count-based, the numbers
  sent on \<^verbatim>\<open>globalCouner\<close> are \<open>g + 1, g + 2, ...\<close> in this order, one for each key sent,
  where \<open>g\<close> is the value of \<^verbatim>\<open>b.globalCouner\<close> at the start (\<open>-1\<close> in a new benchmark, so
  that the numbers start at \<open>0\<close>): strictly increasing and without gaps. In a run of
  \<^verbatim>\<open>Load\<close> there is also one number for each key sent, but it is the unchanged
  \<^verbatim>\<open>b.globalCouner\<close> every time. (The counter is assumed not to overflow during the run.)
\<close>

theorem sequence_numbers:
  assumes "int64 (globalCouner b)"
    and "globalCouner b + int (if 0 < T b then fired else nat (N b)) < 2 ^ 63"
  shows "sent_seqs (fst (Benchmark_Run b now envs fired)) =
           map (\<lambda>i. globalCouner b + 1 + int i)
             [0..<length (sent_keys (fst (Benchmark_Run b now envs fired)))] \<and>
         sent_seqs (fst (Benchmark_Load b now)) =
           replicate (length (sent_keys (fst (Benchmark_Load b now)))) (globalCouner b)"
proof
  let ?b0 = "b\<lparr>latency := [], startTime := now\<rparr>"
  let ?envs = "map envs [0..<(if 0 < T b then fired else nat (N b))]"
  have "sent_seqs (fst (submit_loop ?b0 ?envs)) =
           map (\<lambda>i. globalCouner ?b0 + 1 + int i)
             [0..<length (sent_keys (fst (submit_loop ?b0 ?envs)))]"
    using assms by (intro submit_loop_seqs) simp_all
  then show "sent_seqs (fst (Benchmark_Run b now envs fired)) =
           map (\<lambda>i. globalCouner b + 1 + int i)
             [0..<length (sent_keys (fst (Benchmark_Run b now envs fired)))]"
    by (simp add: Run_sends)
next
  show "sent_seqs (fst (Benchmark_Load b now)) =
           replicate (length (sent_keys (fst (Benchmark_Load b now)))) (globalCouner b)"
  proof (cases "0 \<le> Concurrency b")
    case True
    then show ?thesis by (rule Load_seqs)
  next
    case False
    then show ?thesis by (simp add: Benchmark_Load_def)
  qed
qed

text \<open>
  Claim C3, witness: the count-based run of three passes in \<^verbatim>\<open>order\<close> mode from a new
  benchmark sends the keys \<open>0, 1, 2\<close> with the numbers \<open>0, 1, 2\<close>.
\<close>

theorem sequence_numbers_witness:
  "int64 (globalCouner order_bench) \<and>
   globalCouner order_bench + int (nat (N order_bench)) < 2 ^ 63 \<and>
   sent_keys (fst (Benchmark_Run order_bench 0 order_envs 0)) = [0, 1, 2] \<and>
   sent_seqs (fst (Benchmark_Run order_bench 0 order_envs 0)) = [0, 1, 2]"
  using sequence_numbers [of order_bench 0 0 order_envs]
  by (simp add: order_run) (simp add: order_bench_def bench_eval int64_def)

text \<open>
  Claim C3 as stated fails for \<^verbatim>\<open>Load\<close>: on a new benchmark with two keys, \<^verbatim>\<open>Load\<close> sends
  the keys \<open>0\<close> and \<open>1\<close>, both with the number \<open>-1\<close>.
\<close>

theorem Load_repeats_sequence_number:
  "sent_keys (fst (Benchmark_Load (NewBenchmark (DefaultBConfig\<lparr>K := 2\<rparr>)) 0)) = [0, 1] \<and>
   sent_seqs (fst (Benchmark_Load (NewBenchmark (DefaultBConfig\<lparr>K := 2\<rparr>)) 0)) = [- 1, - 1]"
  by (simp add: Benchmark_Load_def Let_def bench_eval Load_loop.simps wrap64_def)

section \<open>The worker on its keys\<close>

text \<open>
  A pass that starts with an error in \<^verbatim>\<open>err\<close> and makes no successful write ends with an
  error in \<^verbatim>\<open>err\<close>, on the error branch.
\<close>

lemma worker_iter_keeps_error:
  assumes "var_err l \<noteq> None" "Float64 env < W b \<longrightarrow> Write_err env \<noteq> None"
  shows "\<exists>l' c out. worker_iter b l k env = (l', c, out) \<and> var_err l' \<noteq> None \<and>
           (c = None \<longleftrightarrow> \<not> Float64 env < W b) \<and>
           result out = None \<and> logged out = var_err l' \<and> end' (done_op out) = MaxInt64"
  using assms
  by (auto simp add: worker_iter_def worker_begin_write_def worker_end_write_def worker_read_def
      worker_finish_def Let_def)

lemma no_successful_write:
  assumes "var_err l \<noteq> None"
    "\<forall>(k, env) \<in> set rest. Float64 env < W b \<longrightarrow> Write_err env \<noteq> None"
  shows "\<forall>(c, out) \<in> set (Benchmark_worker b l rest).
           result out = None \<and> logged out \<noteq> None \<and> end' (done_op out) = MaxInt64"
  using assms
proof (induction rest arbitrary: l)
  case Nil
  then show ?case by simp
next
  case (Cons a rest)
  obtain k env where a: "a = (k, env)" by (cases a)
  with Cons.prems have r: "Float64 env < W b \<longrightarrow> Write_err env \<noteq> None" by simp
  from worker_iter_keeps_error [OF Cons.prems(1) r, of k] obtain l' c out where
    it: "worker_iter b l k env = (l', c, out)" "var_err l' \<noteq> None"
    "result out = None" "logged out = var_err l'" "end' (done_op out) = MaxInt64" by blast
  from Cons.prems(2) have "\<forall>(k, env) \<in> set rest. Float64 env < W b \<longrightarrow> Write_err env \<noteq> None"
    by simp
  from Cons.IH [OF it(2) this] it a show ?case by simp
qed

lemma worker_read_makes_no_call:
  "\<not> Float64 env < W b \<Longrightarrow> fst (snd (worker_iter b l k env)) = None"
  by (simp add: worker_iter_def split_beta)

lemma Benchmark_worker_length: "length (Benchmark_worker b l xs) = length xs"
  by (induction xs arbitrary: l) (auto split: prod.splits)

lemma sent_latencies_none:
  "\<forall>(c, out) \<in> set outs. result out = None \<Longrightarrow> sent_latencies outs = []"
  by (induction outs) (auto simp: sent_latencies_def)

text \<open>
  Claim C9: let a worker make a pass whose \<^verbatim>\<open>Write\<close> fails, and then any number of passes
  none of which is a successful write: synthetic reads, and writes that fail again. Every
  one of these passes, the reads included, takes the error branch: it sends no latency,
  logs the error that \<^verbatim>\<open>err\<close> still holds and marks its operation with the sentinel end
  timestamp, since \<^verbatim>\<open>err\<close> is declared outside the loop and the read branch does not
  assign it. No latency being sent, the collector has nothing to receive, and the wait
  group is left as it was.
\<close>

theorem stale_error_swallows_reads:
  assumes "Float64 env0 < W b" and "Write_err env0 \<noteq> None"
    and "\<forall>(k, env) \<in> set rest. Float64 env < W b \<longrightarrow> Write_err env \<noteq> None"
  shows "(\<forall>(c, out) \<in> set (Benchmark_worker b l ((k0, env0) # rest)).
            result out = None \<and> logged out \<noteq> None \<and> end' (done_op out) = MaxInt64) \<and>
         length (Benchmark_worker b l ((k0, env0) # rest)) = Suc (length rest) \<and>
         sent_latencies (Benchmark_worker b l ((k0, env0) # rest)) = [] \<and>
         Benchmark_collect c (sent_latencies (Benchmark_worker b l ((k0, env0) # rest))) = Inr c"
proof -
  obtain l' cl out where it: "worker_iter b l k0 env0 = (l', cl, out)"
    by (cases "worker_iter b l k0 env0") auto
  with assms(1,2) have f: "var_err l' \<noteq> None" "result out = None" "logged out \<noteq> None"
    "end' (done_op out) = MaxInt64"
    by (auto simp add: worker_iter_def worker_begin_write_def worker_end_write_def
        worker_finish_def Let_def)
  have outs: "Benchmark_worker b l ((k0, env0) # rest) = (cl, out) # Benchmark_worker b l' rest"
    using it by simp
  have rest: "\<forall>(c, out) \<in> set (Benchmark_worker b l' rest).
           result out = None \<and> logged out \<noteq> None \<and> end' (done_op out) = MaxInt64"
    using f(1) assms(3) by (rule no_successful_write)
  have all: "\<forall>(c, out) \<in> set (Benchmark_worker b l ((k0, env0) # rest)).
            result out = None \<and> logged out \<noteq> None \<and> end' (done_op out) = MaxInt64"
    using rest f unfolding outs by simp
  then have "\<forall>(c, out) \<in> set (Benchmark_worker b l ((k0, env0) # rest)). result out = None"
    by auto
  then have sent: "sent_latencies (Benchmark_worker b l ((k0, env0) # rest)) = []"
    by (rule sent_latencies_none)
  have len: "length (Benchmark_worker b l ((k0, env0) # rest)) = Suc (length rest)"
    by (simp only: Benchmark_worker_length length_Cons)
  from all sent len show ?thesis by simp
qed

text \<open>
  Claim C9, witness: with a write ratio of one half, a failed write followed by two
  synthetic reads; the reads make no call, log the error of the write again and send no
  latency.
\<close>

theorem stale_error_swallows_reads_witness:
  "Float64 failed_write_env < W half_bench \<and> Write_err failed_write_env \<noteq> None \<and>
   \<not> Float64 read_env < W half_bench \<and>
   map (\<lambda>(c, out). (c, result out, logged out))
     (Benchmark_worker half_bench worker_vars0
        [(0, failed_write_env), (1, read_env), (2, read_env)]) =
     [(Some (0, [1, 2, 3], 0), None, Some ''timeout''), (None, None, Some ''timeout''),
      (None, None, Some ''timeout'')] \<and>
   sent_latencies (Benchmark_worker half_bench worker_vars0
        [(0, failed_write_env), (1, read_env), (2, read_env)]) = []"
  using stale_error_swallows_reads [of failed_write_env half_bench
      "[(1, read_env), (2, read_env)]" worker_vars0 0 half_bench]
  by (simp add: half_bench_def failed_write_env_def read_env_def bench_eval worker_vars0_def
      worker_iter_def worker_begin_write_def worker_end_write_def worker_read_def
      worker_finish_def Let_def sent_latencies_def)

section \<open>The pairing of keys and numbers under every schedule\<close>

lemma recv_keys_append: "recv_keys (xs @ ys) = recv_keys xs @ recv_keys ys"
  by (simp add: recv_keys_def)

lemma recv_keys_nth:
  "i < length ws \<Longrightarrow>
     recv_keys ws = recv_keys (take i ws) @ recv_key (ws ! i) @ recv_keys (drop (Suc i) ws)"
  using id_take_nth_drop [of i ws] recv_keys_append
  by (metis append_Cons append_Nil concat.simps(2) list.simps(9) recv_keys_def)

lemma recv_keys_update:
  "i < length ws \<Longrightarrow>
     recv_keys (ws[i := w]) = recv_keys (take i ws) @ recv_key w @ recv_keys (drop (Suc i) ws)"
  by (simp add: upd_conv_take_nth_drop recv_keys_def)

lemma recv_keys_update_same:
  assumes "i < length ws" "recv_key (ws ! i) = recv_key w"
  shows "recv_keys (ws[i := w]) = recv_keys ws"
  using assms recv_keys_nth [of i ws] recv_keys_update [of i ws w] by simp

lemma well_sent_False_awaiting: "well_sent False p \<Longrightarrow> awaiting p = None"
  by (cases p; cases "hd p") (auto split: event.splits)

lemma well_sent_True: "well_sent True p \<Longrightarrow> \<exists>n p'. p = SendSeq n # p' \<and> well_sent False p'"
  by (cases p) (auto split: event.splits)

lemma no_sends_well_sent:
  "sent_keys p = [] \<Longrightarrow> sent_seqs p = [] \<Longrightarrow> well_sent False p"
proof (induction p)
  case Nil
  then show ?case by simp
next
  case (Cons ev p)
  then show ?case by (cases ev) simp_all
qed

lemma no_seqs_awaiting: "sent_seqs p = [] \<Longrightarrow> awaiting p = None"
  by (cases p; cases "hd p") (auto split: event.splits)

lemma pairing_inv_idle:
  assumes "awaiting (prog s) = None"
  shows "pairing_inv P s \<longleftrightarrow>
    well_sent False (prog s) \<and> outstanding s = [] \<and>
    pairs P = map key_seq (calls s) @ pairs (prog s) \<and>
    (seq_closed s \<longrightarrow> sent_keys (prog s) = [] \<and> sent_seqs (prog s) = [])"
  using assms by (simp add: pairing_inv_def)

lemma pairing_inv_due:
  assumes "prog s = SendSeq n # p"
  shows "pairing_inv P s \<longleftrightarrow>
    well_sent False p \<and> \<not> seq_closed s \<and>
    (\<exists>k. pairs P = map key_seq (calls s) @ (k, n) # pairs p \<and>
         (outstanding s = [k] \<or> outstanding s = []))"
  using assms by (auto simp add: pairing_inv_def)

lemma pairing_inv_cases:
  assumes "pairing_inv P s"
  obtains (idle) "awaiting (prog s) = None" "well_sent False (prog s)" "outstanding s = []"
      "pairs P = map key_seq (calls s) @ pairs (prog s)"
      "seq_closed s \<longrightarrow> sent_keys (prog s) = [] \<and> sent_seqs (prog s) = []"
  | (due) n p k where "prog s = SendSeq n # p" "well_sent False p" "\<not> seq_closed s"
      "pairs P = map key_seq (calls s) @ (k, n) # pairs p"
      "outstanding s = [k] \<or> outstanding s = []"
proof (cases "awaiting (prog s)")
  case None
  with assms show ?thesis by (intro idle) (simp_all add: pairing_inv_idle)
next
  case (Some n)
  then obtain p where p: "prog s = SendSeq n # p"
    by (cases "prog s"; cases "hd (prog s)") (auto split: event.splits)
  with assms obtain k where "well_sent False p" "\<not> seq_closed s"
    "pairs P = map key_seq (calls s) @ (k, n) # pairs p"
    "outstanding s = [k] \<or> outstanding s = []"
    by (auto simp: pairing_inv_due)
  with p show ?thesis by (intro due)
qed

lemma pairing_inv_cong:
  assumes "prog s' = prog s" "calls s' = calls s" "outstanding s' = outstanding s"
    "seq_closed s' = seq_closed s"
  shows "pairing_inv P s' = pairing_inv P s"
  using assms by (simp add: pairing_inv_def split: option.split)

lemma pairing_inv_panicked [simp]: "pairing_inv P (s\<lparr>panicked := e\<rparr>) = pairing_inv P s"
  by (rule pairing_inv_cong) (simp_all add: outstanding_def)

lemma orch_step_pairing_inv:
  assumes inv: "pairing_inv P s" and step: "orch_step s = Some s'"
  shows "pairing_inv P s'"
  using inv
proof (cases rule: pairing_inv_cases)
  case (due n p k)
  with step have "s' = s\<lparr>panicked := Some ClosedChannel\<rparr> \<and> seq_closed s"
    by (auto simp: orch_step_def split: if_splits)
  with inv show ?thesis by simp
next
  case idle
  from step obtain ev p where p: "prog s = ev # p"
    by (cases "prog s") (auto simp: orch_step_def)
  show ?thesis
  proof (cases "\<exists>k. ev = SendKey k")
    case True
    then obtain k where ev: "ev = SendKey k" by blast
    with idle(2) p have "well_sent True p" by simp
    then obtain n p' where p': "p = SendSeq n # p'" "well_sent False p'"
      using well_sent_True by blast
    from idle(5) p ev have nc: "\<not> seq_closed s" by auto
    from step p ev have "s' = s\<lparr>panicked := Some ClosedChannel\<rparr> \<or>
        s' = s\<lparr>prog := p, keys := keys s @ [k]\<rparr>"
      by (auto simp: orch_step_def split: if_splits)
    then show ?thesis
    proof
      assume "s' = s\<lparr>panicked := Some ClosedChannel\<rparr>"
      with inv show ?thesis by simp
    next
      assume s': "s' = s\<lparr>prog := p, keys := keys s @ [k]\<rparr>"
      have o: "outstanding s' = [k]" using idle(3) s' by (simp add: outstanding_def)
      have pr: "prog s' = SendSeq n # p'" using s' p' by simp
      have sc: "\<not> seq_closed s'" using nc s' by simp
      have "pairs P = map key_seq (calls s') @ (k, n) # pairs p'"
        using idle(4) p ev p' s' by simp
      with o p'(2) sc show ?thesis
        unfolding pairing_inv_due [OF pr] by blast
    qed
  next
    case False
    then have nk: "\<And>k. ev \<noteq> SendKey k" by blast
    from idle(1) p have ns: "\<And>n. ev \<noteq> SendSeq n" by (cases ev) auto
    have prog': "prog s' = p" and cl: "calls s' = calls s" and out: "outstanding s' = outstanding s"
      and sc: "seq_closed s' = (seq_closed s \<or> ev = CloseSeq)"
      using step p nk ns
      by (cases ev; auto simp: orch_step_def outstanding_def recv_keys_append recv_keys_def
          split: if_splits)+
    have pp: "pairs (prog s) = pairs p" using p nk ns by (cases ev) auto
    have sk: "sent_keys (prog s) = sent_keys p" "sent_seqs (prog s) = sent_seqs p"
      using p nk ns by (cases ev; auto)+
    have ws: "well_sent False p \<and> (ev = CloseSeq \<longrightarrow> sent_keys p = [] \<and> sent_seqs p = [])"
      using idle(2) p nk ns by (cases ev) (auto simp add: no_sends_well_sent)
    then have aw: "awaiting p = None" by (simp add: well_sent_False_awaiting)
    show ?thesis
      using ws aw idle(3,4,5) prog' cl out sc pp sk
      by (auto simp add: pairing_inv_idle [of s'])
  qed
qed

lemma recv_key_after_finish [simp]: "recv_key (after_finish l out) = []"
  by (simp add: after_finish_def split: option.split)

lemma worker_at_Some: "worker_at s i = Some w \<longleftrightarrow> i < length (workers s) \<and> workers s ! i = w"
  by (auto simp: worker_at_def)

lemma set_worker_fields [simp]:
  "prog (set_worker s i w) = prog s" "calls (set_worker s i w) = calls s"
  "keys (set_worker s i w) = keys s" "seq_closed (set_worker s i w) = seq_closed s"
  "workers (set_worker s i w) = (workers s)[i := w]"
  by (simp_all add: set_worker_def)

lemma pairing_inv_worker_moves:
  assumes "i < length (workers s)" "recv_key (workers s ! i) = []" "recv_key w = []"
    "prog s' = prog s" "calls s' = calls s" "keys s' = keys s" "seq_closed s' = seq_closed s"
    "workers s' = (workers s)[i := w]"
  shows "pairing_inv P s' = pairing_inv P s"
proof (rule pairing_inv_cong)
  show "outstanding s' = outstanding s"
    using assms by (simp add: outstanding_def recv_keys_update_same)
qed (use assms in simp_all)

lemma rendezvous_pairing_inv:
  assumes inv: "pairing_inv P s" and step: "fire_live (Rendezvous i) s = Some s'"
  shows "pairing_inv P s'"
proof -
  from step obtain n p l k where p: "prog s = SendSeq n # p"
    and w: "i < length (workers s)" "workers s ! i = Recv l k"
    and s': "s' = (set_worker s i (Writing l k n))\<lparr>prog := p, calls := calls s @ [(k, var_v l, n)]\<rparr>"
    by (auto simp: worker_at_Some split: list.splits event.splits option.splits wstate.splits if_splits)
  from inv p obtain k' where ws: "well_sent False p" and nc: "\<not> seq_closed s"
    and pp: "pairs P = map key_seq (calls s) @ (k', n) # pairs p"
    and o: "outstanding s = [k'] \<or> outstanding s = []"
    by (auto simp: pairing_inv_due)
  let ?A = "recv_keys (take i (workers s))" and ?B = "recv_keys (drop (Suc i) (workers s))"
  have rk: "recv_keys (workers s) = ?A @ [k] @ ?B"
    using recv_keys_nth [OF w(1)] w(2) by simp
  with o have e: "keys s = []" "?A = []" "?B = []" "k = k'"
    by (auto simp: outstanding_def append_eq_Cons_conv Cons_eq_append_conv)
  have o': "outstanding s' = []"
    using s' e w(1) by (simp add: outstanding_def recv_keys_update)
  have aw: "awaiting (prog s') = None" using s' ws by (simp add: well_sent_False_awaiting)
  have "pairs P = map key_seq (calls s') @ pairs (prog s')"
    using pp s' e by (simp add: key_seq_def)
  with o' ws nc s' show ?thesis
    unfolding pairing_inv_idle [OF aw] by simp
qed

lemma take_pairing_inv:
  assumes inv: "pairing_inv P s" and step: "fire_live (Take i coin payload t1 t2) s = Some s'"
  shows "pairing_inv P s'"
proof -
  from step obtain l k q w' where w: "i < length (workers s)" "workers s ! i = Idle l"
    and k: "keys s = k # q"
    and s'f: "prog s' = prog s" "calls s' = calls s" "seq_closed s' = seq_closed s"
      "keys s' = q" "workers s' = (workers s)[i := w']"
    and w': "recv_key w' = [k] \<or> recv_key w' = []"
    by (auto simp: worker_at_Some Let_def split_beta
        split: list.splits option.splits wstate.splits if_splits)
  from inv show ?thesis
  proof (cases rule: pairing_inv_cases)
    case idle
    with k show ?thesis by (simp add: outstanding_def)
  next
    case (due n p k')
    let ?A = "recv_keys (take i (workers s))" and ?B = "recv_keys (drop (Suc i) (workers s))"
    have rk: "recv_keys (workers s) = ?A @ ?B"
      using recv_keys_nth [OF w(1)] w(2) by simp
    with due(5) k have e: "q = []" "?A = []" "?B = []" "k = k'"
      by (auto simp: outstanding_def)
    have o': "outstanding s' = [k'] \<or> outstanding s' = []"
      using s'f e w(1) w' by (auto simp add: outstanding_def recv_keys_update)
    have pr: "prog s' = SendSeq n # p" using s'f due(1) by simp
    from due(2,3,4) o' s'f show ?thesis
      unfolding pairing_inv_due [OF pr] by auto
  qed
qed

lemma recv_closed_pairing_inv:
  assumes inv: "pairing_inv P s" and step: "fire_live (RecvClosed i) s = Some s'"
  shows "pairing_inv P s'"
proof -
  from step obtain l k where w: "i < length (workers s)" "workers s ! i = Recv l k"
    and c: "seq_closed s"
    by (auto simp: worker_at_Some split: option.splits wstate.splits if_splits)
  from inv c have "sent_seqs (prog s) = []" by (simp add: pairing_inv_def)
  then have aw: "awaiting (prog s) = None" by (rule no_seqs_awaiting)
  with inv have "outstanding s = []" by (simp add: pairing_inv_idle)
  moreover have "recv_keys (workers s) \<noteq> []"
    using recv_keys_nth [OF w(1)] w(2) by simp
  ultimately show ?thesis by (simp add: outstanding_def)
qed

lemma fire_live_pairing_inv:
  assumes inv: "pairing_inv P s" and step: "fire_live a s = Some s'"
  shows "pairing_inv P s'"
proof (cases a)
  case Orch
  with inv step show ?thesis by (simp add: orch_step_pairing_inv)
next
  case (Rendezvous i)
  with inv step show ?thesis by (simp add: rendezvous_pairing_inv)
next
  case (Take i coin payload t1 t2)
  with inv step show ?thesis by (simp add: take_pairing_inv)
next
  case (RecvClosed i)
  with inv step show ?thesis by (simp add: recv_closed_pairing_inv)
next
  case (Return i werr t)
  with step obtain l k n w' where w: "i < length (workers s)" "workers s ! i = Writing l k n"
    and s'f: "prog s' = prog s" "calls s' = calls s" "seq_closed s' = seq_closed s"
      "keys s' = keys s" "workers s' = (workers s)[i := w']" "recv_key w' = []"
    by (auto simp: worker_at_Some Let_def split_beta split: option.splits wstate.splits)
  have "pairing_inv P s' = pairing_inv P s"
    using w s'f by (intro pairing_inv_worker_moves [of i s w']) simp_all
  with inv show ?thesis by simp
next
  case (Send i)
  with step obtain l t where w: "i < length (workers s)" "workers s ! i = Sending l t"
    and s': "s' = s\<lparr>panicked := Some ClosedChannel\<rparr> \<or>
      s' = (set_worker s i (Idle l))\<lparr>latencies := latencies s @ [t]\<rparr>"
    by (auto simp: worker_at_Some split: option.splits wstate.splits if_splits)
  from s' show ?thesis
  proof
    assume "s' = s\<lparr>panicked := Some ClosedChannel\<rparr>"
    with inv show ?thesis by simp
  next
    assume "s' = (set_worker s i (Idle l))\<lparr>latencies := latencies s @ [t]\<rparr>"
    then have "pairing_inv P s' = pairing_inv P s"
      using w by (intro pairing_inv_worker_moves [of i s "Idle l"]) simp_all
    with inv show ?thesis by simp
  qed
next
  case (Exit i)
  with step obtain l where w: "i < length (workers s)" "workers s ! i = Idle l"
    and s': "s' = set_worker s i Exited"
    by (auto simp: worker_at_Some split: option.splits wstate.splits if_splits)
  then have "pairing_inv P s' = pairing_inv P s"
    by (intro pairing_inv_worker_moves [of i s Exited]) simp_all
  with inv show ?thesis by simp
next
  case Collect
  with step have "prog s' = prog s \<and> calls s' = calls s \<and> keys s' = keys s \<and>
      workers s' = workers s \<and> seq_closed s' = seq_closed s"
    by (auto split: list.splits if_splits sum.splits)
  then have "pairing_inv P s' = pairing_inv P s"
    by (intro pairing_inv_cong) (simp_all add: outstanding_def)
  with inv show ?thesis by simp
qed

lemma run_pairing_inv:
  "pairing_inv P s \<Longrightarrow> run acts s = Some s' \<Longrightarrow> pairing_inv P s'"
proof (induction acts arbitrary: s)
  case Nil
  then show ?case by simp
next
  case (Cons a acts)
  from Cons.prems(2) obtain s1 where f: "fire a s = Some s1" and r: "run acts s1 = Some s'"
    by (auto split: option.splits)
  from f have "fire_live a s = Some s1" by (simp add: fire_def split: if_splits)
  from fire_live_pairing_inv [OF Cons.prems(1) this] r show ?case by (rule Cons.IH)
qed

lemma pairing_inv_prefix:
  assumes "pairing_inv P s"
  shows "\<exists>rest. pairs P = map key_seq (calls s) @ rest"
  using assms by (cases rule: pairing_inv_cases) auto

lemma init_pairing_inv:
  assumes "well_sent False P"
  shows "pairing_inv P (init_sys b P)"
proof -
  have "awaiting (prog (init_sys b P)) = None"
    using assms by (simp add: init_sys_def well_sent_False_awaiting)
  then show ?thesis
    unfolding pairing_inv_idle [OF \<open>awaiting (prog (init_sys b P)) = None\<close>]
    using assms by (simp add: init_sys_def outstanding_def recv_keys_def)
qed

lemma well_sent_append:
  "well_sent d xs \<Longrightarrow> CloseSeq \<notin> set xs \<Longrightarrow> well_sent False ys \<Longrightarrow> well_sent d (xs @ ys)"
proof (induction xs arbitrary: d)
  case Nil
  then show ?case by simp
next
  case (Cons ev xs)
  then show ?case by (cases ev) auto
qed

lemma well_sent_GoWorker: "well_sent False (replicate n GoWorker)"
  by (induction n) simp_all

lemma well_sent_Load_loop: "well_sent False (Load_loop b i) \<and> CloseSeq \<notin> set (Load_loop b i)"
proof (induction b i rule: Load_loop.induct)
  case (1 b i)
  show ?case
  proof (cases "i < wrap64 (Min' b + K b)")
    case False
    then show ?thesis by (subst (1 2) Load_loop.simps) simp
  next
    case True
    with "1.IH" show ?thesis by (subst (1 2) Load_loop.simps) simp
  qed
qed

lemma well_sent_submit_loop:
  "well_sent False (fst (submit_loop b envs)) \<and> CloseSeq \<notin> set (fst (submit_loop b envs))"
proof (induction envs arbitrary: b)
  case Nil
  then show ?case by simp
next
  case (Cons a envs)
  obtain ticks d where a: "a = (ticks, d)" by (cases a)
  show ?case
  proof (cases b ticks d envs rule: submit_loop_Cons_cases)
    case (stopped evs out)
    then show ?thesis using a by auto
  next
    case (passed key b1)
    with Cons.IH [of b1] a show ?thesis by simp
  qed
qed

lemma well_sent_replicate [simp]:
  "well_sent False (replicate n GoWorker @ xs) = well_sent False xs"
  by (induction n) simp_all

lemma well_sent_Load_tail:
  "well_sent False tail \<Longrightarrow> well_sent False (Load_loop b i @ tail)"
  using well_sent_Load_loop [of b i] by (auto intro!: well_sent_append)

lemma well_sent_submit_tail:
  "well_sent False tail \<Longrightarrow> well_sent False (fst (submit_loop b envs) @ tail)"
  using well_sent_submit_loop [of b envs] by (auto intro!: well_sent_append)

lemma well_sent_Load: "well_sent False (fst (Benchmark_Load b now))"
  by (simp add: Benchmark_Load_def Let_def well_sent_Load_tail)

lemma well_sent_Run: "well_sent False (fst (Benchmark_Run b now envs fired))"
proof -
  let ?sub = "submit_loop (b\<lparr>latency := [], startTime := now\<rparr>)
     (map envs [0..<(if 0 < T b then fired else nat (N b))])"
  have 2: "well_sent False (fst ?sub)" using well_sent_submit_loop by blast
  show ?thesis
  proof (cases "Concurrency b < 0")
    case True
    then show ?thesis by (simp add: Benchmark_Run_def)
  next
    case False
    show ?thesis
    proof (cases "snd ?sub")
      case (Returns b')
      with False show ?thesis
        by (cases "0 < T b") (simp_all add: Benchmark_Run_def Let_def split_beta well_sent_submit_tail)
    next
      case (Panics e)
      with False 2 show ?thesis
        by (simp add: Benchmark_Run_def Let_def split_beta)
    next
      case Hangs
      with False 2 show ?thesis
        by (simp add: Benchmark_Run_def Let_def split_beta)
    qed
  qed
qed

lemma no_keys_no_pairs: "sent_keys p = [] \<Longrightarrow> pairs p = []"
proof (induction p)
  case Nil
  then show ?case by simp
next
  case (Cons ev p)
  then show ?case by (cases ev) simp_all
qed

lemma pairs_zip_gen:
  "well_sent d p \<Longrightarrow>
     pairs p = zip (sent_keys p) (if d then tl (sent_seqs p) else sent_seqs p)"
proof (induction p arbitrary: d)
  case Nil
  then show ?case by simp
next
  case (Cons ev p)
  show ?case
  proof (cases ev)
    case (SendKey k)
    with Cons.prems have t: "well_sent True p" and d: "\<not> d" by simp_all
    from well_sent_True [OF t] obtain n p' where p: "p = SendSeq n # p'" by blast
    from Cons.IH [OF t] p SendKey d show ?thesis by simp
  next
    case (SendSeq n)
    with Cons.prems have "well_sent False p" and d: "d" by simp_all
    from Cons.IH [OF this(1)] SendSeq d show ?thesis by simp
  next
    case CloseSeq
    with Cons.prems show ?thesis by (simp add: no_keys_no_pairs)
  qed (use Cons in auto)
qed

lemma pairs_zip: "well_sent False p \<Longrightarrow> pairs p = zip (sent_keys p) (sent_seqs p)"
  using pairs_zip_gen [of False p] by simp

text \<open>
  Claim C4: in a run of \<^verbatim>\<open>Run\<close> or of \<^verbatim>\<open>Load\<close>, with any number of workers and under every
  schedule of the goroutines, the \<^verbatim>\<open>Write\<close> calls made so far carry, in the order of the
  calls, the keys in the order of their generation, each with the number that was sent
  right after it: call \<open>i\<close> has the \<open>i\<close>-th key and the \<open>i\<close>-th number. The unbuffered channel
  lets the orchestrator send the next key only after a worker has taken the number of
  the key before.
\<close>

theorem write_calls_keep_pairing:
  "(run acts (Run_sys b now envs fired) = Some s \<longrightarrow>
      (\<exists>rest. zip (sent_keys (fst (Benchmark_Run b now envs fired)))
                 (sent_seqs (fst (Benchmark_Run b now envs fired))) =
               map key_seq (calls s) @ rest)) \<and>
   (run acts (Load_sys b now) = Some s \<longrightarrow>
      (\<exists>rest. zip (sent_keys (fst (Benchmark_Load b now)))
                 (sent_seqs (fst (Benchmark_Load b now))) =
               map key_seq (calls s) @ rest))"
proof (intro conjI impI)
  let ?P = "fst (Benchmark_Run b now envs fired)"
  assume "run acts (Run_sys b now envs fired) = Some s"
  then have "pairing_inv ?P s"
    unfolding Run_sys_def by (rule run_pairing_inv [OF init_pairing_inv [OF well_sent_Run]])
  from pairing_inv_prefix [OF this] show "\<exists>rest. zip (sent_keys ?P) (sent_seqs ?P) =
               map key_seq (calls s) @ rest"
    by (simp add: pairs_zip [OF well_sent_Run])
next
  let ?P = "fst (Benchmark_Load b now)"
  assume "run acts (Load_sys b now) = Some s"
  then have "pairing_inv ?P s"
    unfolding Load_sys_def by (rule run_pairing_inv [OF init_pairing_inv [OF well_sent_Load]])
  from pairing_inv_prefix [OF this] show "\<exists>rest. zip (sent_keys ?P) (sent_seqs ?P) =
               map key_seq (calls s) @ rest"
    by (simp add: pairs_zip [OF well_sent_Load])
qed

section \<open>\<^verbatim>\<open>Load\<close> under every schedule\<close>















section \<open>Runs on concrete inputs\<close>

lemma one_run:
  "fst (Benchmark_Run one_bench 0 order_envs 0) =
    [ResetLatency, GoCollect, GoWorker, DbInit, SetStart 0, WaitAdd, SendKey 0, SendSeq 0,
     WaitWait, DbStop, CloseKeys, CloseSeq, Report, CloseLatencies]"
  by (simp add: Benchmark_Run_def one_bench_def order_envs_def zero_draws_def bench_eval Let_def
      Benchmark_next_def next_switch_def advance_counter_def go_rem_def wrap64_def
      signed_modulo_int_def)

lemma timed_run:
  "fst (Benchmark_Run timed_bench 0 order_envs 1) =
    [ResetLatency, GoCollect, GoWorker, DbInit, SetStart 0, WaitAdd, SendKey 0, SendSeq 0,
     DbStop, CloseKeys, CloseSeq, Report, CloseLatencies]"
  by (simp add: Benchmark_Run_def timed_bench_def order_envs_def zero_draws_def bench_eval Let_def
      Benchmark_next_def next_switch_def advance_counter_def go_rem_def wrap64_def
      signed_modulo_int_def)

lemmas sys_eval = Run_sys_def init_sys_def fire_def orch_step_def worker_at_def set_worker_def
  worker_begin_write_def worker_end_write_def worker_read_def worker_finish_def after_finish_def
  log_of_def worker_vars0_def new_operation_def collect_one_def Let_def


lemma failed_write_state:
  "map_option (\<lambda>s. (prog s, wait (bench s), latency (bench s), latencies s, keys s,
       keys_closed s, workers s, calls s, logs s, reported s, panicked s))
     (run failed_write_schedule (Run_sys one_bench 0 order_envs 0)) =
   Some ([WaitWait, DbStop, CloseKeys, CloseSeq, Report, CloseLatencies], 1, [], [], [], False,
         [Idle \<lparr>var_s = 10, var_e = 20, var_err = Some ''timeout'', var_v = [1, 2, 3]\<rparr>],
         [(0, [1, 2, 3], 0)], [''timeout''], None, None)"
  unfolding Run_sys_def one_run
  by (simp add: failed_write_schedule_def start_schedule_def sys_eval)
     (simp add: one_bench_def bench_eval)

text \<open>
  Claim C1 at a failed write: the count-based run of one pass in which the \<^verbatim>\<open>Write\<close> call
  of the only key returns an error. The error is logged, no latency is sent or collected,
  and the counter of the wait group stays at 1 with the orchestrator at \<^verbatim>\<open>b.wait.Wait()\<close>.
  In this state no goroutine can take a step: the wait never returns and the statistics
  are never reported.
\<close>

theorem failed_write_blocks_barrier:
  "map_option (\<lambda>s. (prog s, wait (bench s), latency (bench s), latencies s, workers s,
       calls s, logs s, reported s))
     (run failed_write_schedule (Run_sys one_bench 0 order_envs 0)) =
   Some ([WaitWait, DbStop, CloseKeys, CloseSeq, Report, CloseLatencies], 1, [], [],
         [Idle \<lparr>var_s = 10, var_e = 20, var_err = Some ''timeout'', var_v = [1, 2, 3]\<rparr>],
         [(0, [1, 2, 3], 0)], [''timeout''], None) \<and>
   (\<forall>a. Option.bind (run failed_write_schedule (Run_sys one_bench 0 order_envs 0)) (fire a) =
      None)"
proof -
  from failed_write_state obtain s where
    r: "run failed_write_schedule (Run_sys one_bench 0 order_envs 0) = Some s"
    and s: "prog s = [WaitWait, DbStop, CloseKeys, CloseSeq, Report, CloseLatencies]"
      "wait (bench s) = 1" "latency (bench s) = []" "latencies s = []" "keys s = []"
      "\<not> keys_closed s"
      "workers s = [Idle \<lparr>var_s = 10, var_e = 20, var_err = Some ''timeout'', var_v = [1, 2, 3]\<rparr>]"
      "calls s = [(0, [1, 2, 3], 0)]" "logs s = [''timeout'']" "reported s = None"
    by auto
  have "fire a s = None" for a
  proof (cases a)
    case Orch
    with s show ?thesis by (simp add: fire_def orch_step_def)
  next
    case (Rendezvous i)
    with s show ?thesis by (simp add: fire_def)
  next
    case (Take i coin payload t1 t2)
    with s show ?thesis by (simp add: fire_def split: option.splits wstate.splits)
  next
    case (RecvClosed i)
    with s show ?thesis by (cases i) (simp_all add: fire_def worker_at_def)
  next
    case (Return i werr t)
    with s show ?thesis by (cases i) (simp_all add: fire_def worker_at_def)
  next
    case (Send i)
    with s show ?thesis by (cases i) (simp_all add: fire_def worker_at_def)
  next
    case (Exit i)
    with s show ?thesis by (cases i) (simp_all add: fire_def worker_at_def)
  next
    case Collect
    with s show ?thesis by (simp add: fire_def)
  qed
  with r s show ?thesis by simp
qed

text \<open>
  Claim C2 at a write in flight: the time-based run whose timer fires after the first
  pass, while the \<^verbatim>\<open>Write\<close> call of the key submitted in that pass has not returned. The
  orchestrator goes on through \<^verbatim>\<open>Stop\<close> and the \<^verbatim>\<open>close\<close> calls and reports the statistics,
  over no latency at all, with the call still in flight and the wait group at 1: it has
  not waited. When the call then returns, the channel \<^verbatim>\<open>latencies\<close> is closed and the send
  of the latency panics: the operation does not complete.
\<close>

theorem timed_run_reports_before_drain:
  "0 < T timed_bench \<and>
   map_option (\<lambda>s. (prog s, wait (bench s), workers s, calls s, reported s))
     (run timer_schedule (Run_sys timed_bench 0 order_envs 1)) =
   Some ([CloseLatencies], 1,
         [Writing \<lparr>var_s = 10, var_e = 0, var_err = None, var_v = [1, 2, 3]\<rparr> 0 0],
         [(0, [1, 2, 3], 0)], Some []) \<and>
   map_option (\<lambda>s. (prog s, wait (bench s), workers s, latency (bench s), reported s, panicked s))
     (run late_return_schedule (Run_sys timed_bench 0 order_envs 1)) =
   Some ([], 1,
         [Sending \<lparr>var_s = 10, var_e = 20, var_err = None, var_v = [1, 2, 3]\<rparr> 10],
         [], Some [], Some ClosedChannel)"
  unfolding Run_sys_def timed_run
  by (simp add: late_return_schedule_def timer_schedule_def start_schedule_def sys_eval)
     (simp add: timed_bench_def bench_eval)

lemma no_wait_in_submit_loop: "WaitWait \<notin> set (fst (submit_loop b envs))"
proof (induction envs arbitrary: b)
  case Nil
  then show ?case by simp
next
  case (Cons a envs)
  obtain ticks d where a: "a = (ticks, d)" by (cases a)
  show ?case
  proof (cases b ticks d envs rule: submit_loop_Cons_cases)
    case (stopped evs out)
    then show ?thesis using a by auto
  next
    case (passed key b1)
    with Cons.IH [of b1] a show ?thesis by simp
  qed
qed

lemma fire_prog_subset: "fire a s = Some s' \<Longrightarrow> set (prog s') \<subseteq> set (prog s)"
  by (cases a)
    (auto simp: fire_def orch_step_def set_worker_def Let_def split_beta
      split: if_splits list.splits event.splits option.splits wstate.splits sum.splits)

lemma run_prog_subset: "run acts s = Some s' \<Longrightarrow> set (prog s') \<subseteq> set (prog s)"
proof (induction acts arbitrary: s)
  case Nil
  then show ?case by simp
next
  case (Cons a acts)
  from Cons.prems obtain s1 where f: "fire a s = Some s1" and r: "run acts s1 = Some s'"
    by (auto split: option.splits)
  from fire_prog_subset [OF f] Cons.IH [OF r] show ?case by blast
qed

text \<open>
  In general: when the key generation of a time-based run returns, the events of \<^verbatim>\<open>Run\<close>
  are the preparation, the events of the passes and then \<^verbatim>\<open>Stop\<close>, the \<^verbatim>\<open>close\<close> calls and
  the report. No \<^verbatim>\<open>Wait\<close> is among them, nor ahead of the orchestrator in any state the
  goroutines can reach.
\<close>

lemma timed_run_never_waits:
  assumes "0 < T b" and "0 \<le> Concurrency b"
    and "\<exists>b'. snd (Benchmark_Run b now envs fired) = Returns b'"
  shows "fst (Benchmark_Run b now envs fired) =
           [ResetLatency, GoCollect] @ replicate (nat (Concurrency b)) GoWorker @
           [DbInit, SetStart now] @
           fst (submit_loop (b\<lparr>latency := [], startTime := now\<rparr>) (map envs [0..<fired])) @
           [DbStop, CloseKeys, CloseSeq, Report, CloseLatencies] \<and>
         length (sent_keys (fst (Benchmark_Run b now envs fired))) = fired \<and>
         WaitWait \<notin> set (fst (Benchmark_Run b now envs fired)) \<and>
         (\<forall>acts s. run acts (Run_sys b now envs fired) = Some s \<longrightarrow> WaitWait \<notin> set (prog s))"
proof -
  let ?sub = "submit_loop (b\<lparr>latency := [], startTime := now\<rparr>) (map envs [0..<fired])"
  from assms obtain b' where r: "snd ?sub = Returns b'"
    by (auto simp: Benchmark_Run_def Let_def split_beta split: outcome.splits)
  have ev: "fst (Benchmark_Run b now envs fired) =
           [ResetLatency, GoCollect] @ replicate (nat (Concurrency b)) GoWorker @
           [DbInit, SetStart now] @ fst ?sub @
           [DbStop, CloseKeys, CloseSeq, Report, CloseLatencies]"
    using assms(1,2) r by (simp add: Benchmark_Run_def Let_def split_beta)
  have len: "length (sent_keys (fst (Benchmark_Run b now envs fired))) = fired"
    using submit_loop_returns_length [OF r] assms(1,2) by (simp add: Run_sends)
  have nw: "WaitWait \<notin> set (fst (Benchmark_Run b now envs fired))"
    unfolding ev using no_wait_in_submit_loop by simp
  have "WaitWait \<notin> set (prog s)" if "run acts (Run_sys b now envs fired) = Some s" for acts s
    using run_prog_subset [OF that] nw by (auto simp: Run_sys_def init_sys_def)
  with ev len nw show ?thesis by blast
qed

text \<open>
  Claim C4, witness: after the start of the count-based run of one pass, the one call
  made has the key 0 and the number 0.
\<close>

theorem write_calls_keep_pairing_witness:
  "run start_schedule (Run_sys one_bench 0 order_envs 0) \<noteq> None \<and>
   calls (the (run start_schedule (Run_sys one_bench 0 order_envs 0))) = [(0, [1, 2, 3], 0)] \<and>
   (\<exists>rest. zip (sent_keys (fst (Benchmark_Run one_bench 0 order_envs 0)))
                 (sent_seqs (fst (Benchmark_Run one_bench 0 order_envs 0))) =
            map key_seq (calls (the (run start_schedule (Run_sys one_bench 0 order_envs 0)))) @
            rest)"
proof -
  have "map_option calls (run start_schedule (Run_sys one_bench 0 order_envs 0)) =
      Some [(0, [1, 2, 3], 0)]"
    unfolding Run_sys_def one_run
    by (simp add: start_schedule_def sys_eval) (simp add: one_bench_def bench_eval)
  then obtain s where s: "run start_schedule (Run_sys one_bench 0 order_envs 0) = Some s"
    "calls s = [(0, [1, 2, 3], 0)]" by auto
  with write_calls_keep_pairing [of start_schedule one_bench 0 order_envs 0 s]
  show ?thesis by simp
qed

end
